theory Spec2Isabelle
  imports Main
begin

section \<open>Values, objects and the heap\<close>

text \<open>
  The merge engine of \<^verbatim>\<open>src/functions/deepmerge.ts\<close> works on JavaScript values. Objects
  have identity (the \<^verbatim>\<open>WeakMap\<close> of visited sources is keyed by it) and plain objects are
  written in place, so composite values live in a heap and a value refers to them by
  address. A property key is a string or a symbol.

  Modelling boundary: numbers are integers; symbols and bigints do not occur as values;
  a plain object holds its own enumerable data properties, kept in creation order (accessors
  are not modelled); arrays have no holes. A function object has no state that the engine
  could change, so a closure over two functions stores their bodies. A plain object has the
  prototype \<^verbatim>\<open>Object.prototype\<close>, whose members are not in the heap: the model is exact on
  the heaps in which no object has an own key named like one of them (\<open>ordinaryHeap\<close>
  below), and the general theorems on the engine assume such a heap.
\<close>

type_synonym addr = nat

datatype key = KStr string | KSym nat

datatype jsval = Undefined | Null | Num int | Str string | Bool bool | Ref addr

text \<open>
  A callable: \<open>Native i r\<close> is a function of the caller, observed through the calls it
  receives, returning \<open>r\<close>; \<open>Composed f g\<close> is the arrow function of lines 194--197 and
  248--251, \<^verbatim>\<open>(...args) => { f(...args); g(...args); }\<close>.
\<close>

datatype fn = Native nat jsval | Composed fn fn

datatype obj =
    PlainObj "(key \<times> jsval) list"
  | Arr "jsval list"
  | Callable fn
  | Opaque string

type_synonym heap = "obj list"

definition lookup :: "heap \<Rightarrow> addr \<Rightarrow> obj option" where
  "lookup h a = (if a < length h then Some (h ! a) else None)"

text \<open>\<^verbatim>\<open>isPlainObject\<close> of \<^verbatim>\<open>src/types/guards.ts\<close>, \<^verbatim>\<open>Array.isArray\<close> and
  \<^verbatim>\<open>typeof v === 'function'\<close>.\<close>

fun isPlainObject :: "heap \<Rightarrow> jsval \<Rightarrow> bool" where
  "isPlainObject h (Ref a) = (case lookup h a of Some (PlainObj ps) \<Rightarrow> True | _ \<Rightarrow> False)"
| "isPlainObject h _ = False"

fun isArray :: "heap \<Rightarrow> jsval \<Rightarrow> bool" where
  "isArray h (Ref a) = (case lookup h a of Some (Arr xs) \<Rightarrow> True | _ \<Rightarrow> False)"
| "isArray h _ = False"

fun asFunction :: "heap \<Rightarrow> jsval \<Rightarrow> fn option" where
  "asFunction h (Ref a) = (case lookup h a of Some (Callable f) \<Rightarrow> Some f | _ \<Rightarrow> None)"
| "asFunction h _ = None"

definition isFunction :: "heap \<Rightarrow> jsval \<Rightarrow> bool" where
  "isFunction h v = (asFunction h v \<noteq> None)"

fun props :: "heap \<Rightarrow> jsval \<Rightarrow> (key \<times> jsval) list" where
  "props h (Ref a) = (case lookup h a of Some (PlainObj ps) \<Rightarrow> ps | _ \<Rightarrow> [])"
| "props h _ = []"

fun elems :: "heap \<Rightarrow> jsval \<Rightarrow> jsval list" where
  "elems h (Ref a) = (case lookup h a of Some (Arr xs) \<Rightarrow> xs | _ \<Rightarrow> [])"
| "elems h _ = []"

text \<open>
  Reading \<^verbatim>\<open>o[key]\<close> finds the own property. A key that is not an own property reads as
  \<^verbatim>\<open>undefined\<close>: this is what JavaScript does unless the key names a member of
  \<^verbatim>\<open>Object.prototype\<close>, which is then read through the prototype chain.
\<close>

definition getProp :: "heap \<Rightarrow> jsval \<Rightarrow> key \<Rightarrow> jsval" where
  "getProp h v k = (case map_of (props h v) k of Some x \<Rightarrow> x | None \<Rightarrow> Undefined)"

text \<open>
  Writing \<^verbatim>\<open>o[key] = v\<close>: an existing property keeps its place, a new one goes last. The
  list is in creation order; the order in which keys are listed is \<open>objectKeys\<close> below.
  This is what JavaScript does for every key but \<^verbatim>\<open>__proto__\<close>, whose assignment goes to the
  setter of \<^verbatim>\<open>Object.prototype\<close> and changes the prototype of the object.
\<close>

fun assign :: "(key \<times> 'a) list \<Rightarrow> key \<Rightarrow> 'a \<Rightarrow> (key \<times> 'a) list" where
  "assign [] k v = [(k, v)]"
| "assign ((k', v') # ps) k v = (if k' = k then (k, v) # ps else (k', v') # assign ps k v)"

fun setProp :: "heap \<Rightarrow> jsval \<Rightarrow> key \<Rightarrow> jsval \<Rightarrow> heap" where
  "setProp h (Ref a) k v =
     (case lookup h a of Some (PlainObj ps) \<Rightarrow> h[a := PlainObj (assign ps k v)] | _ \<Rightarrow> h)"
| "setProp h _ k v = h"

text \<open>
  The names of the members of \<^verbatim>\<open>Object.prototype\<close>. A key is ordinary when it is none of
  them, a plain object when all its own keys are, a heap when all its objects are. On an
  ordinary heap every key that the engine reads or writes is an own key of some object (line
  227), hence ordinary: there \<open>getProp\<close> and \<open>setProp\<close> are what JavaScript does. An object
  parsed from the text \<^verbatim>\<open>{"__proto__": 1}\<close> has the own key \<^verbatim>\<open>__proto__\<close> and is not ordinary.
\<close>

definition inheritedNames :: "string list" where
  "inheritedNames =
     [''__proto__'', ''constructor'', ''hasOwnProperty'', ''isPrototypeOf'',
      ''propertyIsEnumerable'', ''toLocaleString'', ''toString'', ''valueOf'',
      ''__defineGetter__'', ''__defineSetter__'', ''__lookupGetter__'', ''__lookupSetter__'']"

fun ordinaryKey :: "key \<Rightarrow> bool" where
  "ordinaryKey (KStr s) = (s \<notin> set inheritedNames)"
| "ordinaryKey (KSym n) = True"

fun ordinaryObj :: "obj \<Rightarrow> bool" where
  "ordinaryObj (PlainObj ps) = list_all (\<lambda>p. ordinaryKey (fst p)) ps"
| "ordinaryObj _ = True"

definition ordinaryHeap :: "heap \<Rightarrow> bool" where
  "ordinaryHeap h = list_all ordinaryObj h"

fun isStrKey :: "key \<Rightarrow> bool" where
  "isStrKey (KStr s) = True"
| "isStrKey (KSym n) = False"

text \<open>A \<^verbatim>\<open>Set\<close> built from a list keeps the first occurrence of each member, in order.\<close>

fun uniq :: "'a list \<Rightarrow> 'a list \<Rightarrow> 'a list" where
  "uniq seen [] = []"
| "uniq seen (x # xs) = (if x \<in> set seen then uniq seen xs else x # uniq (x # seen) xs)"

text \<open>
  \<^verbatim>\<open>Object.keys\<close> lists the string keys that are array indices first, in ascending numeric
  order, then the other string keys in creation order. An array index is the decimal
  numeral, without leading zeros, of a number below \<open>2\<^sup>3\<^sup>2 - 1\<close>.
\<close>

definition isDigit :: "char \<Rightarrow> bool" where
  "isDigit c = (48 \<le> (of_char c :: int) \<and> (of_char c :: int) \<le> 57)"

definition numeralValue :: "string \<Rightarrow> int" where
  "numeralValue s = foldl (\<lambda>n c. 10 * n + ((of_char c :: int) - 48)) 0 s"

definition isArrayIndex :: "string \<Rightarrow> bool" where
  "isArrayIndex s =
     (s \<noteq> [] \<and> list_all isDigit s \<and> (length s = 1 \<or> hd s \<noteq> CHR ''0'') \<and>
      numeralValue s < 4294967295)"

fun isIndexKey :: "key \<Rightarrow> bool" where
  "isIndexKey (KStr s) = isArrayIndex s"
| "isIndexKey (KSym n) = False"

fun indexOfKey :: "key \<Rightarrow> int" where
  "indexOfKey (KStr s) = numeralValue s"
| "indexOfKey (KSym n) = 0"

definition objectKeys :: "key list \<Rightarrow> key list" where
  "objectKeys ks =
     sort_key indexOfKey (filter isIndexKey ks) @
     filter (\<lambda>k. isStrKey k \<and> \<not> isIndexKey k) ks"

text \<open>Lines 227--232: \<^verbatim>\<open>Object.keys\<close> of both sides, then their own symbols.\<close>

definition keyOrder :: "key list \<Rightarrow> key list \<Rightarrow> key list" where
  "keyOrder resultKeys sourceKeys =
     uniq [] (objectKeys resultKeys @ objectKeys sourceKeys @
              filter (\<lambda>k. \<not> isStrKey k) resultKeys @
              filter (\<lambda>k. \<not> isStrKey k) sourceKeys)"

definition keysOf :: "heap \<Rightarrow> jsval \<Rightarrow> jsval \<Rightarrow> key list" where
  "keysOf h result source = keyOrder (map fst (props h result)) (map fst (props h source))"

section \<open>Options\<close>

text \<open>
  \<^verbatim>\<open>DeepMergeOptions\<close> (lines 28--42). The two callbacks are modelled as pure functions of
  the values they receive; a callback that throws or writes to the heap is outside the model.
\<close>

datatype built = NewArray "jsval list" | Existing jsval

datatype arrayMergeStrategy =
    Replace | Concat | Merge | Custom "heap \<Rightarrow> jsval \<Rightarrow> jsval \<Rightarrow> built"

datatype functionMergeMode = ReplaceFn | Compose

record options =
  arrayMerge :: arrayMergeStrategy
  clone :: bool
  customMerge :: "(key \<Rightarrow> jsval \<Rightarrow> jsval \<Rightarrow> jsval) option"
  functionMerge :: functionMergeMode
  maxDepth :: int

text \<open>Lines 164--170: the defaults.\<close>

definition defaultOptions :: options where
  "defaultOptions =
     \<lparr>arrayMerge = Replace, clone = True, customMerge = None,
      functionMerge = ReplaceFn, maxDepth = 100\<rparr>"

section \<open>The state of one top-level call\<close>

text \<open>
  The heap, the \<^verbatim>\<open>visited\<close> weak map (source \<open>\<mapsto>\<close> result, line 172) and the number of
  \<^verbatim>\<open>console.warn\<close> calls made so far.
\<close>

record state =
  heap :: heap
  visited :: "(addr \<times> jsval) list"
  warnings :: nat

datatype error = TypeError

text \<open>A computation runs out of fuel (\<open>None\<close>), throws (\<open>Inl\<close>) or returns (\<open>Inr\<close>).\<close>

type_synonym 'a result = "(error + 'a) option"

definition alloc :: "state \<Rightarrow> obj \<Rightarrow> jsval \<times> state" where
  "alloc st ob = (Ref (length (heap st)), st\<lparr>heap := heap st @ [ob]\<rparr>)"

definition writeProp :: "state \<Rightarrow> jsval \<Rightarrow> key \<Rightarrow> jsval \<Rightarrow> state" where
  "writeProp st r k v = st\<lparr>heap := setProp (heap st) r k v\<rparr>"

text \<open>\<^verbatim>\<open>visited.has(source)\<close>: false for a value that is not an object.\<close>

fun visitedHas :: "state \<Rightarrow> jsval \<Rightarrow> bool" where
  "visitedHas st (Ref a) = (a \<in> fst ` set (visited st))"
| "visitedHas st _ = False"

text \<open>\<^verbatim>\<open>visited.set(source, result)\<close>: a \<^verbatim>\<open>WeakMap\<close> key must be an object; any other
  key throws a \<^verbatim>\<open>TypeError\<close>.\<close>

fun visitedSet :: "state \<Rightarrow> jsval \<Rightarrow> jsval \<Rightarrow> error + state" where
  "visitedSet st (Ref a) result = Inr (st\<lparr>visited := (a, result) # visited st\<rparr>)"
| "visitedSet st _ result = Inl TypeError"

text \<open>Lines 208--212: the shallow copy of a composite target.\<close>

definition cloneTarget :: "options \<Rightarrow> state \<Rightarrow> jsval \<Rightarrow> jsval \<times> state" where
  "cloneTarget opts st target =
     (if clone opts then
        (if isArray (heap st) target then alloc st (Arr (elems (heap st) target))
         else alloc st (PlainObj (props (heap st) target)))
      else (target, st))"

text \<open>The callback decides a value when it returns anything but \<^verbatim>\<open>undefined\<close>
  (lines 188--191 and 238--242).\<close>

definition customDecision :: "options \<Rightarrow> key \<Rightarrow> jsval \<Rightarrow> jsval \<Rightarrow> jsval option" where
  "customDecision opts k tv sv =
     (case customMerge opts of
        None \<Rightarrow> None
      | Some cb \<Rightarrow> (if cb k tv sv \<noteq> Undefined then Some (cb k tv sv) else None))"

text \<open>Lines 192--201 and 243--254: two callables.\<close>

definition mergeFunctions :: "options \<Rightarrow> state \<Rightarrow> fn \<Rightarrow> fn \<Rightarrow> jsval \<Rightarrow> jsval \<times> state" where
  "mergeFunctions opts st f g source =
     (if functionMerge opts = Compose then alloc st (Callable (Composed f g)) else (source, st))"

text \<open>Lines 184--206: a target that is neither a plain object nor an array.\<close>

fun leafMerge :: "options \<Rightarrow> state \<Rightarrow> jsval \<Rightarrow> jsval list \<Rightarrow> jsval \<times> state" where
  "leafMerge opts st target [] = (target, st)"
| "leafMerge opts st target (source # rest) =
     (if source \<noteq> Undefined then
        (case customDecision opts (KStr []) target source of
           Some merged \<Rightarrow> (merged, st)
         | None \<Rightarrow>
             (case (asFunction (heap st) target, asFunction (heap st) source) of
                (Some f, Some g) \<Rightarrow> mergeFunctions opts st f g source
              | _ \<Rightarrow> (source, st)))
      else leafMerge opts st target rest)"

section \<open>The merge engine\<close>

text \<open>Sequencing: the second step runs on what the first returns; running out of fuel and
  a thrown error pass through.\<close>

definition andThen :: "'a result \<Rightarrow> ('a \<Rightarrow> 'b result) \<Rightarrow> 'b result" where
  "andThen m f = (case m of None \<Rightarrow> None | Some (Inl e) \<Rightarrow> Some (Inl e) | Some (Inr x) \<Rightarrow> f x)"

text \<open>
  \<^verbatim>\<open>mergeObjects\<close> (lines 176--278) and \<^verbatim>\<open>mergeArrays\<close> (lines 280--308) call each other.
  The first argument is fuel, spent by each call of \<^verbatim>\<open>mergeObjects\<close>: the recursion follows
  references through a heap that may hold cycles, so it is not structural.
  \<open>mergeSources\<close> is the loop of line 214 and \<open>mergeSource\<close> its body (lines 215--274),
  which returns the result to go on with; \<open>mergeKeys\<close> is the loop of line 234 and
  \<open>mergeKey\<close> its body (lines 235--269); \<open>mergeElems\<close> is the loop of line 290. Arrays are
  never written by the engine, so the loop over indices reads both arrays once; the array
  \<^verbatim>\<open>merged\<close> is local to the loop and enters the heap when the loop is done.
\<close>

function (sequential)
      mergeObjects :: "nat \<Rightarrow> options \<Rightarrow> state \<Rightarrow> jsval \<Rightarrow> jsval list \<Rightarrow> nat \<Rightarrow> (jsval \<times> state) result"
  and mergeSources :: "nat \<Rightarrow> options \<Rightarrow> state \<Rightarrow> jsval \<Rightarrow> jsval list \<Rightarrow> nat \<Rightarrow> (jsval \<times> state) result"
  and mergeSource :: "nat \<Rightarrow> options \<Rightarrow> state \<Rightarrow> jsval \<Rightarrow> jsval \<Rightarrow> nat \<Rightarrow> (jsval \<times> state) result"
  and mergeKeys :: "nat \<Rightarrow> options \<Rightarrow> state \<Rightarrow> jsval \<Rightarrow> jsval \<Rightarrow> key list \<Rightarrow> nat \<Rightarrow> state result"
  and mergeKey :: "nat \<Rightarrow> options \<Rightarrow> state \<Rightarrow> jsval \<Rightarrow> jsval \<Rightarrow> key \<Rightarrow> nat \<Rightarrow> state result"
  and mergeArrays :: "nat \<Rightarrow> options \<Rightarrow> state \<Rightarrow> jsval \<Rightarrow> jsval \<Rightarrow> (jsval \<times> state) result"
  and mergeElems :: "nat \<Rightarrow> options \<Rightarrow> state \<Rightarrow> jsval list \<Rightarrow> jsval list \<Rightarrow> (jsval list \<times> state) result"
where
  "mergeObjects 0 opts st target sources depth = None"
| "mergeObjects (Suc n) opts st target sources depth =
     (if maxDepth opts \<le> int depth then
        Some (Inr (target, st\<lparr>warnings := Suc (warnings st)\<rparr>))
      else if \<not> isPlainObject (heap st) target \<and> \<not> isArray (heap st) target then
        Some (Inr (leafMerge opts st target sources))
      else
        (case cloneTarget opts st target of
           (result, st1) \<Rightarrow> mergeSources n opts st1 result sources depth))"
| "mergeSources n opts st result [] depth = Some (Inr (result, st))"
| "mergeSources n opts st result (source # rest) depth =
     andThen (mergeSource n opts st result source depth)
       (\<lambda>(result', st1). mergeSources n opts st1 result' rest depth)"
| "mergeSource n opts st result source depth =
     (if source = Null \<or> source = Undefined then Some (Inr (result, st))
      else if visitedHas st source then Some (Inr (result, st))
      else
        (case visitedSet st source result of
           Inl e \<Rightarrow> Some (Inl e)
         | Inr st1 \<Rightarrow>
             if isArray (heap st1) result \<and> isArray (heap st1) source then
               mergeArrays n opts st1 result source
             else if isPlainObject (heap st1) result \<and> isPlainObject (heap st1) source then
               andThen (mergeKeys n opts st1 result source (keysOf (heap st1) result source) depth)
                 (\<lambda>st2. Some (Inr (result, st2)))
             else Some (Inr (source, st1))))"
| "mergeKeys n opts st result source [] depth = Some (Inr st)"
| "mergeKeys n opts st result source (k # ks) depth =
     andThen (mergeKey n opts st result source k depth)
       (\<lambda>st1. mergeKeys n opts st1 result source ks depth)"
| "mergeKey n opts st result source k depth =
     (let targetValue = getProp (heap st) result k;
          sourceValue = getProp (heap st) source k
      in case customDecision opts k targetValue sourceValue of
           Some merged \<Rightarrow> Some (Inr (writeProp st result k merged))
         | None \<Rightarrow>
             (case (asFunction (heap st) targetValue, asFunction (heap st) sourceValue) of
                (Some f, Some g) \<Rightarrow>
                  (case mergeFunctions opts st f g sourceValue of
                     (v, st1) \<Rightarrow> Some (Inr (writeProp st1 result k v)))
              | _ \<Rightarrow>
                  if isPlainObject (heap st) targetValue \<and> isPlainObject (heap st) sourceValue then
                    andThen (mergeObjects n opts st targetValue [sourceValue] (Suc depth))
                      (\<lambda>(v, st1). Some (Inr (writeProp st1 result k v)))
                  else if isArray (heap st) targetValue \<and> isArray (heap st) sourceValue then
                    andThen (mergeArrays n opts st targetValue sourceValue)
                      (\<lambda>(v, st1). Some (Inr (writeProp st1 result k v)))
                  else if sourceValue \<noteq> Undefined then
                    Some (Inr (writeProp st result k sourceValue))
                  else Some (Inr st)))"
| "mergeArrays n opts st target source =
     (case arrayMerge opts of
        Custom strategy \<Rightarrow>
          (case strategy (heap st) target source of
             NewArray xs \<Rightarrow> Some (Inr (alloc st (Arr xs)))
           | Existing v \<Rightarrow> Some (Inr (v, st)))
      | Concat \<Rightarrow> Some (Inr (alloc st (Arr (elems (heap st) target @ elems (heap st) source))))
      | Merge \<Rightarrow>
          andThen (mergeElems n opts st (elems (heap st) target) (elems (heap st) source))
            (\<lambda>(merged, st1). Some (Inr (alloc st1 (Arr merged))))
      | Replace \<Rightarrow> Some (Inr (alloc st (Arr (elems (heap st) source)))))"
| "mergeElems n opts st [] [] = Some (Inr ([], st))"
| "mergeElems n opts st (t # ts) [] =
     andThen (mergeElems n opts st ts []) (\<lambda>(merged, st1). Some (Inr (t # merged, st1)))"
| "mergeElems n opts st [] (s # ss) =
     andThen (mergeElems n opts st [] ss) (\<lambda>(merged, st1). Some (Inr (s # merged, st1)))"
| "mergeElems n opts st (t # ts) (s # ss) =
     (if isPlainObject (heap st) t \<and> isPlainObject (heap st) s then
        andThen (mergeObjects n opts st t [s] 0)
          (\<lambda>(v, st1). andThen (mergeElems n opts st1 ts ss)
             (\<lambda>(merged, st2). Some (Inr (v # merged, st2))))
      else
        andThen (mergeElems n opts st ts ss) (\<lambda>(merged, st1). Some (Inr (s # merged, st1))))"
  by pat_completeness auto

text \<open>Fuel first, then the callee's rank among the seven functions, then the length of
  the list a loop walks.\<close>

termination
  apply (relation "inv_image (less_than <*lex*> less_than <*lex*> less_than)
        (\<lambda>x. case x of
           Inl (Inl (n, opts, st, target, sources, depth)) \<Rightarrow> (n, 0::nat, 0::nat)
         | Inl (Inr (Inl (n, opts, st, result, sources, depth))) \<Rightarrow> (n, 6, length sources)
         | Inl (Inr (Inr (n, opts, st, result, source, depth))) \<Rightarrow> (n, 5, 0)
         | Inr (Inl (Inl (n, opts, st, result, source, ks, depth))) \<Rightarrow> (n, 4, length ks)
         | Inr (Inl (Inr (n, opts, st, result, source, k, depth))) \<Rightarrow> (n, 3, 0)
         | Inr (Inr (Inl (n, opts, st, target, source))) \<Rightarrow> (n, 2, 0)
         | Inr (Inr (Inr (n, opts, st, ts, ss))) \<Rightarrow> (n, 1, length ts + length ss))")
  apply (intro wf_inv_image wf_lex_prod wf_less_than)
  apply simp_all
  done

section \<open>The public function\<close>

text \<open>
  \<^verbatim>\<open>deepmerge(target, ...args)\<close> (lines 139--174). The last argument is taken as the options
  when it is an object, not an array, with at least one of the five option properties
  defined; the other arguments are then the sources. Otherwise every argument is a source.
  An option holding a function is read through \<open>callbacks\<close>, which says what that function
  computes. The options are decoded for values of the declared type
  \<^verbatim>\<open>DeepMergeOptions\<close>; an option of another type is outside the model and decodes as the
  default. An opaque object carries no properties in this model, so it is never taken as the
  options.
\<close>

record callbacks =
  arrayCallback :: "fn \<Rightarrow> heap \<Rightarrow> jsval \<Rightarrow> jsval \<Rightarrow> built"
  customCallback :: "fn \<Rightarrow> key \<Rightarrow> jsval \<Rightarrow> jsval \<Rightarrow> jsval"

fun truthy :: "jsval \<Rightarrow> bool" where
  "truthy Undefined = False"
| "truthy Null = False"
| "truthy (Num n) = (n \<noteq> 0)"
| "truthy (Str s) = (s \<noteq> [])"
| "truthy (Bool b) = b"
| "truthy (Ref a) = True"

definition optionKeys :: "key list" where
  "optionKeys =
     [KStr ''arrayMerge'', KStr ''clone'', KStr ''customMerge'',
      KStr ''functionMerge'', KStr ''maxDepth'']"

definition isOptionsArg :: "heap \<Rightarrow> jsval \<Rightarrow> bool" where
  "isOptionsArg h lastArg =
     (isPlainObject h lastArg \<and> (\<exists>k \<in> set optionKeys. getProp h lastArg k \<noteq> Undefined))"

definition decodeOptions :: "callbacks \<Rightarrow> heap \<Rightarrow> jsval \<Rightarrow> options" where
  "decodeOptions cbs h v =
     \<lparr>arrayMerge =
        (case getProp h v (KStr ''arrayMerge'') of
           Str s \<Rightarrow> (if s = ''concat'' then Concat else if s = ''merge'' then Merge else Replace)
         | Ref a \<Rightarrow> (case asFunction h (Ref a) of
                      Some f \<Rightarrow> Custom (arrayCallback cbs f) | None \<Rightarrow> Replace)
         | _ \<Rightarrow> Replace),
      clone =
        (case getProp h v (KStr ''clone'') of Undefined \<Rightarrow> True | x \<Rightarrow> truthy x),
      customMerge =
        (case asFunction h (getProp h v (KStr ''customMerge'')) of
           Some f \<Rightarrow> Some (customCallback cbs f) | None \<Rightarrow> None),
      functionMerge =
        (if getProp h v (KStr ''functionMerge'') = Str ''compose'' then Compose else ReplaceFn),
      maxDepth =
        (case getProp h v (KStr ''maxDepth'') of Num n \<Rightarrow> n | _ \<Rightarrow> 100)\<rparr>"

definition initial :: "heap \<Rightarrow> state" where
  "initial h = \<lparr>heap = h, visited = [], warnings = 0\<rparr>"

definition deepmerge ::
  "nat \<Rightarrow> callbacks \<Rightarrow> heap \<Rightarrow> jsval \<Rightarrow> jsval list \<Rightarrow> (jsval \<times> state) result" where
  "deepmerge fuel cbs h target args =
     (let lastArg = (if args = [] then Undefined else last args) in
      if isOptionsArg h lastArg then
        mergeObjects fuel (decodeOptions cbs h lastArg) (initial h) target (butlast args) 0
      else mergeObjects fuel defaultOptions (initial h) target args 0)"

section \<open>Calling a function\<close>

text \<open>
  What a call does that a caller can observe: the calls the caller's own functions receive,
  in order, and the value returned. The composed arrow function has a block body without
  \<^verbatim>\<open>return\<close>, so it returns \<^verbatim>\<open>undefined\<close>.
\<close>

fun invoke :: "fn \<Rightarrow> jsval list \<Rightarrow> (nat \<times> jsval list) list \<times> jsval" where
  "invoke (Native i r) args = ([(i, args)], r)"
| "invoke (Composed f g) args = (fst (invoke f args) @ fst (invoke g args), Undefined)"

text \<open>A caller that passes no callbacks: a function found in an option computes nothing.\<close>

definition noCallbacks :: callbacks where
  "noCallbacks =
     \<lparr>arrayCallback = (\<lambda>f h target source. Existing Undefined),
      customCallback = (\<lambda>f k targetValue sourceValue. Undefined)\<rparr>"

section \<open>Relations between states\<close>

text \<open>
  The engine changes the state in single steps: creating an object, writing a property,
  recording a visited source, emitting a warning. A relation between the state before and
  the state after is closed under the steps when it is reflexive and transitive and every
  single step keeps it.
\<close>

definition stepClosed :: "(state \<Rightarrow> state \<Rightarrow> bool) \<Rightarrow> bool" where
  "stepClosed R =
     ((\<forall>s. R s s) \<and>
      (\<forall>s1 s2 s3. R s1 s2 \<longrightarrow> R s2 s3 \<longrightarrow> R s1 s3) \<and>
      (\<forall>s ob. R s (snd (alloc s ob))) \<and>
      (\<forall>s r k v. R s (writeProp s r k v)) \<and>
      (\<forall>s a r. R s (s\<lparr>visited := (a, r) # visited s\<rparr>)) \<and>
      (\<forall>s. R s (s\<lparr>warnings := Suc (warnings s)\<rparr>)))"

text \<open>
  The heap only grows, and an object never changes its kind: a plain object stays a plain
  object, and arrays, functions and opaque objects are never written. A value is valid in a
  heap when it does not refer beyond it.
\<close>

fun sameKind :: "obj \<Rightarrow> obj \<Rightarrow> bool" where
  "sameKind (PlainObj ps) (PlainObj qs) = True"
| "sameKind a b = (a = b)"

definition extends :: "state \<Rightarrow> state \<Rightarrow> bool" where
  "extends st st' =
     (length (heap st) \<le> length (heap st') \<and>
      (\<forall>a < length (heap st). sameKind (heap st ! a) (heap st' ! a)))"

fun validIn :: "heap \<Rightarrow> jsval \<Rightarrow> bool" where
  "validIn h (Ref a) = (a < length h)"
| "validIn h _ = True"

section \<open>Values as finite trees\<close>

text \<open>
  The results of two calls live at different addresses, so they are compared as the trees
  they denote: a scalar, a mapping from keys to trees, a sequence of trees, a function or an
  opaque object. \<open>unfolds h v t as\<close> holds when the value \<open>v\<close> denotes the tree \<open>t\<close> in the heap
  \<open>h\<close>; \<open>as\<close> lists the addresses of the objects met on the way, in order, and lists an
  address twice when the object is reached twice. A value that reaches itself denotes no
  finite tree. Two values are structurally equal when they denote the same tree.
\<close>

datatype shape =
    SScalar jsval
  | SObj "(key \<times> shape) list"
  | SArr "shape list"
  | SFun fn
  | SOpaque string

inductive unfolds :: "heap \<Rightarrow> jsval \<Rightarrow> shape \<Rightarrow> addr list \<Rightarrow> bool"
  and unfoldsProps :: "heap \<Rightarrow> (key \<times> jsval) list \<Rightarrow> (key \<times> shape) list \<Rightarrow> addr list \<Rightarrow> bool"
  and unfoldsElems :: "heap \<Rightarrow> jsval list \<Rightarrow> shape list \<Rightarrow> addr list \<Rightarrow> bool"
  for h :: heap
where
  scalar: "(\<And>a. v \<noteq> Ref a) \<Longrightarrow> unfolds h v (SScalar v) []"
| plain: "lookup h a = Some (PlainObj ps) \<Longrightarrow> unfoldsProps h ps qs as \<Longrightarrow>
          unfolds h (Ref a) (SObj qs) (a # as)"
| array: "lookup h a = Some (Arr xs) \<Longrightarrow> unfoldsElems h xs ts as \<Longrightarrow>
          unfolds h (Ref a) (SArr ts) (a # as)"
| callable: "lookup h a = Some (Callable f) \<Longrightarrow> unfolds h (Ref a) (SFun f) [a]"
| opaque: "lookup h a = Some (Opaque s) \<Longrightarrow> unfolds h (Ref a) (SOpaque s) [a]"
| noProps: "unfoldsProps h [] [] []"
| props: "unfolds h v t as1 \<Longrightarrow> unfoldsProps h ps qs as2 \<Longrightarrow>
          unfoldsProps h ((k, v) # ps) ((k, t) # qs) (as1 @ as2)"
| noElems: "unfoldsElems h [] [] []"
| elems: "unfolds h v t as1 \<Longrightarrow> unfoldsElems h vs ts as2 \<Longrightarrow>
          unfoldsElems h (v # vs) (t # ts) (as1 @ as2)"

text \<open>
  The tests of the engine, read on trees: \<open>isSObj\<close> for \<^verbatim>\<open>isPlainObject\<close>, \<open>isSArr\<close> for
  \<^verbatim>\<open>Array.isArray\<close>, \<open>nullish\<close> for \<^verbatim>\<open>== null\<close>; \<open>sprop\<close> and \<open>propOf\<close> read a property, which
  is \<^verbatim>\<open>undefined\<close> when the key is absent. A tree is free of callables when no function
  occurs in it at any depth.
\<close>

fun isSObj :: "shape \<Rightarrow> bool" where
  "isSObj (SObj qs) = True"
| "isSObj _ = False"

fun isSArr :: "shape \<Rightarrow> bool" where
  "isSArr (SArr ts) = True"
| "isSArr _ = False"

fun isSScalar :: "shape \<Rightarrow> bool" where
  "isSScalar (SScalar v) = True"
| "isSScalar _ = False"

fun nullish :: "shape \<Rightarrow> bool" where
  "nullish (SScalar Null) = True"
| "nullish (SScalar Undefined) = True"
| "nullish _ = False"

definition sprop :: "(key \<times> shape) list \<Rightarrow> key \<Rightarrow> shape" where
  "sprop qs k = (case map_of qs k of Some t \<Rightarrow> t | None \<Rightarrow> SScalar Undefined)"

fun sprops :: "shape \<Rightarrow> (key \<times> shape) list" where
  "sprops (SObj qs) = qs"
| "sprops _ = []"

fun selems :: "shape \<Rightarrow> shape list" where
  "selems (SArr ts) = ts"
| "selems _ = []"

definition propOf :: "(key \<times> jsval) list \<Rightarrow> key \<Rightarrow> jsval" where
  "propOf ps k = (case map_of ps k of Some x \<Rightarrow> x | None \<Rightarrow> Undefined)"

fun callableFree :: "shape \<Rightarrow> bool" where
  "callableFree (SFun f) = False"
| "callableFree (SObj qs) = (\<forall>p \<in> set qs. callableFree (snd p))"
| "callableFree (SArr ts) = (\<forall>t \<in> set ts. callableFree t)"
| "callableFree _ = True"

section \<open>The merge of one source, on trees\<close>

text \<open>
  What \<^verbatim>\<open>mergeObjects(target, [source], depth)\<close> (lines 176--278) computes, read on trees,
  when the target is cloned, no \<^verbatim>\<open>customMerge\<close> is given and arrays are replaced or
  merged by position (\<open>plainOptions\<close>). \<open>pureObjects\<close> follows the function branch by branch:
  the depth guard, the leaf path, the skipped null source, two arrays, two mappings with the
  key loop of lines 234--270, and the mismatch of line 273. \<open>pureElems\<close> is the loop of
  line 290 and \<open>pureArrays\<close> is \<^verbatim>\<open>mergeArrays\<close> for the two strategies; \<open>pureKey\<close> is one
  turn of the key loop and \<open>pureSource\<close> the body of the source loop. The recursion follows
  the source tree, so no fuel is needed. These definitions are the means of the proof
  that two successive merges agree; that the engine computes them is \<open>objectsRefine\<close>,
  proved below for every amount of fuel.
\<close>

definition pureFunctions :: "options \<Rightarrow> fn \<Rightarrow> fn \<Rightarrow> shape \<Rightarrow> shape" where
  "pureFunctions opts f g source =
     (if functionMerge opts = Compose then SFun (Composed f g) else source)"

fun pureLeaf :: "options \<Rightarrow> shape \<Rightarrow> shape \<Rightarrow> shape" where
  "pureLeaf opts target (SScalar Undefined) = target"
| "pureLeaf opts (SFun f) (SFun g) = pureFunctions opts f g (SFun g)"
| "pureLeaf opts target source = source"

function (sequential)
      pureObjects :: "options \<Rightarrow> nat \<Rightarrow> shape \<Rightarrow> shape \<Rightarrow> shape"
  and pureElems :: "options \<Rightarrow> shape list \<Rightarrow> shape list \<Rightarrow> shape list"
where
  "pureObjects opts depth target source =
     (if maxDepth opts \<le> int depth then target
      else if \<not> isSObj target \<and> \<not> isSArr target then pureLeaf opts target source
      else if source = SScalar Null \<or> source = SScalar Undefined then target
      else if isSArr target \<and> isSArr source then
        (if arrayMerge opts = Merge then SArr (pureElems opts (selems target) (selems source))
         else source)
      else if isSObj target \<and> isSObj source then
        SObj (fold
               (\<lambda>k result.
                  let targetValue = sprop result k; sourceValue = sprop (sprops source) k in
                  (case (targetValue, sourceValue) of
                     (SFun f, SFun g) \<Rightarrow> assign result k (pureFunctions opts f g sourceValue)
                   | _ \<Rightarrow>
                     if isSObj targetValue \<and> isSObj sourceValue then
                       assign result k (pureObjects opts (Suc depth) targetValue sourceValue)
                     else if isSArr targetValue \<and> isSArr sourceValue then
                       assign result k
                         (if arrayMerge opts = Merge then
                            SArr (pureElems opts (selems targetValue) (selems sourceValue))
                          else sourceValue)
                     else if sourceValue \<noteq> SScalar Undefined then assign result k sourceValue
                     else result))
               (keyOrder (map fst (sprops target)) (map fst (sprops source)))
               (sprops target))
      else source)"
| "pureElems opts ts [] = ts"
| "pureElems opts [] (s # ss) = s # ss"
| "pureElems opts (t # ts) (s # ss) =
     (if isSObj t \<and> isSObj s then pureObjects opts 0 t s else s) # pureElems opts ts ss"
  by pat_completeness auto
termination
  apply (relation "measure (\<lambda>x. case x of
           Inl (opts, depth, target, source) \<Rightarrow> size source
         | Inr (opts, ts, ss) \<Rightarrow> size_list size ss)")
       apply simp_all
  apply (case_tac [!] source)
  apply (auto simp: sprop_def less_Suc_eq_le split: option.splits
      dest!: map_of_SomeD intro: size_list_estimation')
  subgoal for opts depth target k result ts qs v
    by (cases v) (auto intro: size_list_estimation')
  subgoal for opts depth target k result ts qs v
    by (cases v) (auto intro: size_list_estimation')
  done

definition pureArrays :: "options \<Rightarrow> shape \<Rightarrow> shape \<Rightarrow> shape" where
  "pureArrays opts target source =
     (if arrayMerge opts = Merge then SArr (pureElems opts (selems target) (selems source))
      else source)"

definition pureKey ::
  "options \<Rightarrow> nat \<Rightarrow> (key \<times> shape) list \<Rightarrow> key \<Rightarrow> (key \<times> shape) list \<Rightarrow> (key \<times> shape) list" where
  "pureKey opts depth sq k result =
     (let targetValue = sprop result k; sourceValue = sprop sq k in
        (case (targetValue, sourceValue) of
           (SFun f, SFun g) \<Rightarrow> assign result k (pureFunctions opts f g sourceValue)
         | _ \<Rightarrow>
           if isSObj targetValue \<and> isSObj sourceValue then
             assign result k (pureObjects opts (Suc depth) targetValue sourceValue)
           else if isSArr targetValue \<and> isSArr sourceValue then
             assign result k (pureArrays opts targetValue sourceValue)
           else if sourceValue \<noteq> SScalar Undefined then assign result k sourceValue
           else result))"

definition pureSource :: "options \<Rightarrow> nat \<Rightarrow> shape \<Rightarrow> shape \<Rightarrow> shape" where
  "pureSource opts d tt ts =
     (if nullish ts then tt
      else if isSArr tt \<and> isSArr ts then pureArrays opts tt ts
      else if isSObj tt \<and> isSObj ts then
        SObj (fold (pureKey opts d (sprops ts))
               (keyOrder (map fst (sprops tt)) (map fst (sprops ts))) (sprops tt))
      else ts)"

definition plainOptions :: "options \<Rightarrow> bool" where
  "plainOptions opts =
     (clone opts \<and> customMerge opts = None \<and>
      (arrayMerge opts = Replace \<or> arrayMerge opts = Merge))"

text \<open>
  A source that is a string, a number or a boolean cannot be merged into a mapping or a
  sequence: line 222 throws. Every other pair of trees is \<open>mergeable\<close>.
\<close>

definition mergeable :: "shape \<Rightarrow> shape \<Rightarrow> bool" where
  "mergeable target source =
     (\<not> ((isSObj target \<or> isSArr target) \<and> isSScalar source \<and> \<not> nullish source))"

text \<open>
  The objects already visited; the objects of the earlier heap left as they were, all of
  them (\<open>frame\<close>) or all but one (\<open>frameExcept\<close>); and two heaps that agree on a list of
  addresses.
\<close>

definition vis :: "state \<Rightarrow> addr set" where
  "vis st = fst ` set (visited st)"

definition frame :: "state \<Rightarrow> state \<Rightarrow> bool" where
  "frame st st' = (\<forall>a < length (heap st). lookup (heap st') a = lookup (heap st) a)"

definition frameExcept :: "addr \<Rightarrow> state \<Rightarrow> state \<Rightarrow> bool" where
  "frameExcept N st st' =
     (\<forall>a < length (heap st). a \<noteq> N \<longrightarrow> lookup (heap st') a = lookup (heap st) a)"

definition sameAt :: "addr list \<Rightarrow> heap \<Rightarrow> heap \<Rightarrow> bool" where
  "sameAt as h h' = (\<forall>a \<in> set as. lookup h' a = lookup h a)"

text \<open>
  The engine refines the merge on trees: for a target that denotes a tree and a source that
  denotes a tree in which no object occurs twice, none of them visited before, and fuel
  above the size of the source, \<^verbatim>\<open>mergeObjects\<close> returns, the value returned denotes the
  tree \<open>pureObjects\<close> computes, and no object that existed before is written.
\<close>

definition objectsRefine :: "nat \<Rightarrow> options \<Rightarrow> bool" where
  "objectsRefine n opts =
     (\<forall>st target source d tt ta ts sa.
        unfolds (heap st) target tt ta \<longrightarrow> unfolds (heap st) source ts sa \<longrightarrow>
        distinct sa \<longrightarrow> set sa \<inter> vis st = {} \<longrightarrow> size ts < n \<longrightarrow> mergeable tt ts \<longrightarrow>
        (\<exists>r st' ra.
           mergeObjects n opts st target [source] d = Some (Inr (r, st')) \<and>
           unfolds (heap st') r (pureObjects opts d tt ts) ra \<and>
           set ra \<subseteq> set ta \<union> set sa \<union> {a. length (heap st) \<le> a} \<and>
           frame st st' \<and> vis st' \<subseteq> vis st \<union> set sa))"

text \<open>
  The value the key loop assigns under a key, if it assigns one; a pair of values the loop
  leaves as it is; and a source tree for which merging it again changes nothing.
\<close>

definition keyValue :: "options \<Rightarrow> nat \<Rightarrow> shape \<Rightarrow> shape \<Rightarrow> shape option" where
  "keyValue opts d tv sv =
     (case (tv, sv) of
        (SFun f, SFun g) \<Rightarrow> Some (pureFunctions opts f g sv)
      | _ \<Rightarrow>
        if isSObj tv \<and> isSObj sv then Some (pureObjects opts (Suc d) tv sv)
        else if isSArr tv \<and> isSArr sv then Some (pureArrays opts tv sv)
        else if sv \<noteq> SScalar Undefined then Some sv
        else None)"

definition stable :: "options \<Rightarrow> nat \<Rightarrow> shape \<Rightarrow> shape \<Rightarrow> bool" where
  "stable opts d tv sv = (keyValue opts d tv sv = None \<or> keyValue opts d tv sv = Some tv)"

definition settled :: "options \<Rightarrow> shape \<Rightarrow> bool" where
  "settled opts u =
     ((\<forall>f. u \<noteq> SFun f) \<and> (\<forall>d. pureObjects opts d u u = u) \<and>
      (\<forall>t d. pureObjects opts d (pureObjects opts d t u) u = pureObjects opts d t u) \<and>
      (isSArr u \<longrightarrow> pureArrays opts u u = u) \<and>
      (\<forall>t. isSArr t \<longrightarrow> isSArr u \<longrightarrow>
         pureArrays opts (pureArrays opts t u) u = pureArrays opts t u))"

section \<open>Heaps that may hold cycles\<close>

text \<open>
  A heap is well formed when no object of it refers beyond it. Nothing else is asked: an
  object may hold itself, and two objects may hold each other.
\<close>

fun below :: "nat \<Rightarrow> jsval \<Rightarrow> bool" where
  "below L (Ref b) = (b < L)"
| "below L _ = True"

fun refsBelow :: "nat \<Rightarrow> obj \<Rightarrow> bool" where
  "refsBelow L (PlainObj ps) = list_all (\<lambda>p. below L (snd p)) ps"
| "refsBelow L (Arr xs) = list_all (below L) xs"
| "refsBelow L _ = True"

definition wellFormed :: "heap \<Rightarrow> bool" where
  "wellFormed h = list_all (refsBelow (length h)) h"

text \<open>
  The options without callbacks: no \<^verbatim>\<open>customMerge\<close>, and one of the three named array
  strategies.
\<close>

definition builtIn :: "options \<Rightarrow> bool" where
  "builtIn opts =
     (customMerge opts = None \<and>
      (arrayMerge opts = Replace \<or> arrayMerge opts = Concat \<or> arrayMerge opts = Merge))"

text \<open>A source that \<^verbatim>\<open>visited.set\<close> rejects (line 222): a string, a number or a boolean.\<close>

fun primitive :: "jsval \<Rightarrow> bool" where
  "primitive (Num n) = True"
| "primitive (Str s) = True"
| "primitive (Bool b) = True"
| "primitive _ = False"

text \<open>
  What bounds the recursion. Fix the length \<open>L\<close> of the heap at the start of the top-level
  call. The plain objects below \<open>L\<close> that are not yet in \<^verbatim>\<open>visited\<close> are pending: a call
  of \<^verbatim>\<open>mergeObjects\<close> on a plain source either finds it in \<^verbatim>\<open>visited\<close> and returns, or
  records it, and then one object less is pending.
\<close>

definition pending :: "nat \<Rightarrow> state \<Rightarrow> addr set" where
  "pending L st = {a. a < L \<and> isPlainObject (heap st) (Ref a) \<and> a \<notin> vis st}"

text \<open>
  For this to bound the recursion, every source met must be an object below \<open>L\<close>. When the
  target is cloned, the objects below \<open>L\<close> that are written are sources already visited
  (line 256 writes to the result, and with \<^verbatim>\<open>clone: false\<close> only the result is an object
  of the caller); the others, and all arrays, still refer below \<open>L\<close> only. When the target
  is not cloned, no plain object is ever created, so every plain object is below \<open>L\<close>.
\<close>

definition originals :: "nat \<Rightarrow> state \<Rightarrow> bool" where
  "originals L st =
     (\<forall>a < L. \<forall>ob. lookup (heap st) a = Some ob \<longrightarrow>
        (a \<notin> vis st \<or> (\<exists>xs. ob = Arr xs)) \<longrightarrow> refsBelow L ob)"

definition plainBelow :: "nat \<Rightarrow> state \<Rightarrow> bool" where
  "plainBelow L st = (\<forall>a. isPlainObject (heap st) (Ref a) \<longrightarrow> a < L)"

definition sound :: "options \<Rightarrow> nat \<Rightarrow> state \<Rightarrow> bool" where
  "sound opts L st =
     (L \<le> length (heap st) \<and> (if clone opts then originals L st else plainBelow L st))"

definition fit :: "options \<Rightarrow> nat \<Rightarrow> jsval \<Rightarrow> bool" where
  "fit opts L v = (clone opts \<longrightarrow> below L v)"

text \<open>
  What a call leaves behind: the heap has grown, the visited sources are still visited, and
  either the unvisited objects are as they were (the target is cloned) or no plain object
  was created (it is not). \<open>afterExcept N\<close> allows writes to the object \<open>N\<close> as well.
\<close>

definition noNewPlain :: "state \<Rightarrow> state \<Rightarrow> bool" where
  "noNewPlain st st' =
     (\<forall>a. isPlainObject (heap st') (Ref a) \<longrightarrow> isPlainObject (heap st) (Ref a))"

definition after :: "options \<Rightarrow> state \<Rightarrow> state \<Rightarrow> bool" where
  "after opts st st' =
     (extends st st' \<and> vis st \<subseteq> vis st' \<and>
      (if clone opts then frame st st' else noNewPlain st st'))"

definition afterExcept :: "options \<Rightarrow> addr \<Rightarrow> state \<Rightarrow> state \<Rightarrow> bool" where
  "afterExcept opts N st st' =
     (extends st st' \<and> vis st \<subseteq> vis st' \<and>
      (if clone opts then frameExcept N st st' else noNewPlain st st'))"

text \<open>A result into which the engine may write: a new object, or a visited one.\<close>

definition writable :: "options \<Rightarrow> nat \<Rightarrow> state \<Rightarrow> jsval \<Rightarrow> bool" where
  "writable opts L st r = (clone opts \<longrightarrow> (\<forall>N. r = Ref N \<longrightarrow> L \<le> N \<or> N \<in> vis st))"

text \<open>
  The statement proved by induction on the fuel: a call of \<^verbatim>\<open>mergeObjects\<close> on two plain
  objects returns a value when fewer objects are pending than fuel is left.
\<close>

definition objectsReturn :: "nat \<Rightarrow> options \<Rightarrow> nat \<Rightarrow> bool" where
  "objectsReturn n opts L =
     (\<forall>st target source d.
        sound opts L st \<longrightarrow> isPlainObject (heap st) target \<longrightarrow>
        isPlainObject (heap st) source \<longrightarrow> fit opts L source \<longrightarrow>
        card (pending L st) < n \<longrightarrow>
        (\<exists>v st'. mergeObjects n opts st target [source] d = Some (Inr (v, st')) \<and>
           after opts st st'))"

text \<open>The engine keeps an ordinary heap ordinary; the statement is by induction on the fuel.\<close>

definition objectsOrdinary :: "nat \<Rightarrow> options \<Rightarrow> bool" where
  "objectsOrdinary n opts =
     (\<forall>st target sources depth v st'.
        ordinaryHeap (heap st) \<longrightarrow>
        mergeObjects n opts st target sources depth = Some (Inr (v, st')) \<longrightarrow>
        ordinaryHeap (heap st'))"

section \<open>The positional merge of two arrays, as a chain of states\<close>

text \<open>
  Lines 287--303. \<open>positional n opts t s ms sts\<close> holds when \<open>ms\<close> is the positional merge of
  the arrays \<open>t\<close> and \<open>s\<close> along the states \<open>sts\<close>: \<open>ms\<close> has the length of the longer
  array, and \<open>sts ! i\<close> is the state in which index \<open>i\<close> is treated. Where both arrays have
  an element and both elements are plain objects in that state, \<open>ms ! i\<close> is the value that
  \<^verbatim>\<open>mergeObjects\<close> returns for the two elements and the one source at depth 0, and the next
  state is the one it leaves. At every other index the state stays; the element is the
  source's where the source has one, and the target's where only the target has one.
\<close>

definition positional ::
  "nat \<Rightarrow> options \<Rightarrow> jsval list \<Rightarrow> jsval list \<Rightarrow> jsval list \<Rightarrow> state list \<Rightarrow> bool" where
  "positional n opts t s ms sts =
     (length ms = max (length t) (length s) \<and> length sts = Suc (length ms) \<and>
      (\<forall>i < length ms.
         if i < length t \<and> i < length s then
           (if isPlainObject (heap (sts ! i)) (t ! i) \<and> isPlainObject (heap (sts ! i)) (s ! i)
            then mergeObjects n opts (sts ! i) (t ! i) [s ! i] 0 =
                   Some (Inr (ms ! i, sts ! Suc i))
            else ms ! i = s ! i \<and> sts ! Suc i = sts ! i)
         else if i < length t then ms ! i = t ! i \<and> sts ! Suc i = sts ! i
         else ms ! i = s ! i \<and> sts ! Suc i = sts ! i))"

section \<open>Sequencing\<close>

lemma andThen_simps [simp]:
  "andThen None f = None"
  "andThen (Some (Inl e)) f = Some (Inl e)"
  "andThen (Some (Inr x)) f = f x"
  by (simp_all add: andThen_def)

lemma andThen_returns:
  "andThen m f = Some (Inr y) \<longleftrightarrow> (\<exists>x. m = Some (Inr x) \<and> f x = Some (Inr y))"
  by (auto simp: andThen_def split: option.splits sum.splits)

section \<open>The list of sources\<close>





text \<open>
  An array passed as the second argument is one source, not the list of sources: line 151
  keeps arrays out of the options test, line 224 merges an array into an array target, and
  for a plain object as target line 273 makes the array the result.
\<close>

lemma array_argument_is_one_source:
  "deepmerge 3 noCallbacks
     [PlainObj [(KStr ''a'', Num 1)], PlainObj [(KStr ''b'', Num 2)], Arr [Ref 1]]
     (Ref 0) [Ref 2] =
   Some (Inr (Ref 2,
     \<lparr>heap = [PlainObj [(KStr ''a'', Num 1)], PlainObj [(KStr ''b'', Num 2)], Arr [Ref 1],
              PlainObj [(KStr ''a'', Num 1)]],
      visited = [(2, Ref 3)], warnings = 0\<rparr>))"
  by code_simp

text \<open>The order in which \<^verbatim>\<open>Object.keys\<close> lists the keys of an object.\<close>

lemma objectKeys_example:
  "objectKeys [KStr ''b'', KStr ''10'', KStr ''2'', KStr ''01'', KSym 3, KStr ''0'',
               KStr ''4294967295'', KStr ''4294967294''] =
     [KStr ''0'', KStr ''2'', KStr ''10'', KStr ''4294967294'', KStr ''b'', KStr ''01'',
      KStr ''4294967295'']"
  by code_simp

section \<open>Leaf targets\<close>

text \<open>
  C3. For a target that is neither a plain object nor an array, the loop of lines 186--204
  returns at the first source that is not \<^verbatim>\<open>undefined\<close>; the comment of line 185 promises
  the last one. With the sources 2 and 3 the call returns 2, for a number as target and
  for an opaque object (a date) as target.
\<close>

theorem C3_leaf_target_returns_first_source:
  "deepmerge 3 noCallbacks [] (Num 1) [Num 2, Num 3] = Some (Inr (Num 2, initial [])) \<and>
   deepmerge 3 noCallbacks [Opaque ''Date''] (Ref 0) [Num 2, Num 3] =
     Some (Inr (Num 2, initial [Opaque ''Date'']))"
  by code_simp

section \<open>A source that is not an object\<close>

text \<open>
  C4. A composite target with a source that is a number: the source is not null, it is not
  in \<^verbatim>\<open>visited\<close>, and \<^verbatim>\<open>visited.set(5, result)\<close> (line 222) throws a \<^verbatim>\<open>TypeError\<close>,
  since a number cannot be a key of a \<^verbatim>\<open>WeakMap\<close>. The branch of line 273, which would let
  the source replace the result, is never reached.
\<close>

theorem C4_number_source_throws:
  "deepmerge 3 noCallbacks [PlainObj [(KStr ''a'', Num 1)]] (Ref 0) [Num 5] =
   Some (Inl TypeError)"
  by code_simp

section \<open>Writes to objects of the caller\<close>

text \<open>
  C5. The options are the defaults, so \<^verbatim>\<open>clone\<close> is true. The heap holds the plain object
  \<^verbatim>\<open>c = {}\<close> at 0, the target \<^verbatim>\<open>t = [c]\<close> at 1 and \<^verbatim>\<open>{z: 1}\<close> at 2. After
  \<^verbatim>\<open>deepmerge(t, c, {z: 1})\<close> the element of the target is \<^verbatim>\<open>{z: 1}\<close>: the copy of the
  target was dropped for \<^verbatim>\<open>c\<close> at line 273, and the next source was written into \<^verbatim>\<open>c\<close>.
\<close>

theorem C5_target_subtree_written:
  "clone defaultOptions \<and>
   deepmerge 3 noCallbacks
     [PlainObj [], Arr [Ref 0], PlainObj [(KStr ''z'', Num 1)]] (Ref 1) [Ref 0, Ref 2] =
   Some (Inr (Ref 0,
     \<lparr>heap = [PlainObj [(KStr ''z'', Num 1)], Arr [Ref 0], PlainObj [(KStr ''z'', Num 1)],
              Arr [Ref 0]],
      visited = [(2, Ref 0), (0, Ref 3)], warnings = 0\<rparr>))"
  by code_simp

text \<open>
  C9. An array as target (address 0) and two plain sources, \<^verbatim>\<open>{a: 1}\<close> at 1 and
  \<^verbatim>\<open>{b: 2}\<close> at 2, with the default options (\<^verbatim>\<open>clone\<close> is true). The first source does
  not match the array and becomes the result, uncopied; the second source is then merged
  into it. The call returns the first source itself, which now holds the key b.
\<close>

theorem C9_earlier_source_written:
  "clone defaultOptions \<and>
   deepmerge 3 noCallbacks
     [Arr [], PlainObj [(KStr ''a'', Num 1)], PlainObj [(KStr ''b'', Num 2)]]
     (Ref 0) [Ref 1, Ref 2] =
   Some (Inr (Ref 1,
     \<lparr>heap = [Arr [], PlainObj [(KStr ''a'', Num 1), (KStr ''b'', Num 2)],
              PlainObj [(KStr ''b'', Num 2)], Arr []],
      visited = [(2, Ref 1), (1, Ref 3)], warnings = 0\<rparr>))"
  by code_simp

section \<open>Two callables\<close>

lemma asFunction_not_composite:
  "asFunction h v = Some f \<Longrightarrow> \<not> isPlainObject h v \<and> \<not> isArray h v"
  by (cases v) (auto split: option.splits obj.splits)

text \<open>
  C2, as the code has it. With \<^verbatim>\<open>functionMerge: 'compose'\<close>, where the callback decides
  nothing: a callable target whose first source is callable (lines 192--197, below the depth
  limit), and two callables under one key of a mapping (lines 243--251), give a new function
  object. Calling it with any arguments calls the target's function, then the source's
  function, with those arguments; the calls observed are those of the first followed by those
  of the second. The call itself returns \<^verbatim>\<open>undefined\<close>: the return values of both functions
  are discarded.
\<close>

theorem C2_compose_calls_both_returns_undefined:
  assumes "functionMerge opts = Compose"
  shows
   "(int depth < maxDepth opts \<longrightarrow> asFunction (heap st) target = Some f \<longrightarrow>
       asFunction (heap st) source = Some g \<longrightarrow>
       customDecision opts (KStr []) target source = None \<longrightarrow>
       mergeObjects (Suc n) opts st target (source # rest) depth =
         Some (Inr (alloc st (Callable (Composed f g))))) \<and>
    (asFunction (heap st) (getProp (heap st) result k) = Some f \<longrightarrow>
       asFunction (heap st) (getProp (heap st) source k) = Some g \<longrightarrow>
       customDecision opts k (getProp (heap st) result k) (getProp (heap st) source k) = None \<longrightarrow>
       mergeKey n opts st result source k depth =
         Some (Inr (writeProp (snd (alloc st (Callable (Composed f g)))) result k
                      (fst (alloc st (Callable (Composed f g))))))) \<and>
    asFunction (heap (snd (alloc st (Callable (Composed f g))))) (fst (alloc st (Callable (Composed f g))))
      = Some (Composed f g) \<and>
    fst (invoke (Composed f g) args) = fst (invoke f args) @ fst (invoke g args) \<and>
    snd (invoke (Composed f g) args) = Undefined"
proof -
  have leaf: "asFunction (heap st) target = Some f \<Longrightarrow> asFunction (heap st) source = Some g \<Longrightarrow>
      source \<noteq> Undefined"
    by auto
  show ?thesis
    using assms
    by (auto simp: mergeFunctions_def alloc_def lookup_def dest: asFunction_not_composite)
qed

theorem C2_compose_witness:
  "functionMerge (defaultOptions\<lparr>functionMerge := Compose\<rparr>) = Compose \<and>
   mergeObjects (Suc 0) (defaultOptions\<lparr>functionMerge := Compose\<rparr>)
     (initial [Callable (Native 1 (Num 10)), Callable (Native 2 (Num 20)),
               PlainObj [(KStr ''k'', Ref 0)], PlainObj [(KStr ''k'', Ref 1)]])
     (Ref 0) [Ref 1] 0 =
   Some (Inr (Ref 4,
     \<lparr>heap = [Callable (Native 1 (Num 10)), Callable (Native 2 (Num 20)),
              PlainObj [(KStr ''k'', Ref 0)], PlainObj [(KStr ''k'', Ref 1)],
              Callable (Composed (Native 1 (Num 10)) (Native 2 (Num 20)))],
      visited = [], warnings = 0\<rparr>)) \<and>
   mergeKey 0 (defaultOptions\<lparr>functionMerge := Compose\<rparr>)
     (initial [Callable (Native 1 (Num 10)), Callable (Native 2 (Num 20)),
               PlainObj [(KStr ''k'', Ref 0)], PlainObj [(KStr ''k'', Ref 1)]])
     (Ref 2) (Ref 3) (KStr ''k'') 0 =
   Some (Inr
     \<lparr>heap = [Callable (Native 1 (Num 10)), Callable (Native 2 (Num 20)),
              PlainObj [(KStr ''k'', Ref 4)], PlainObj [(KStr ''k'', Ref 1)],
              Callable (Composed (Native 1 (Num 10)) (Native 2 (Num 20)))],
      visited = [], warnings = 0\<rparr>) \<and>
   fst (invoke (Composed (Native 1 (Num 10)) (Native 2 (Num 20))) [Num 7]) =
     [(1, [Num 7]), (2, [Num 7])] \<and>
   snd (invoke (Composed (Native 1 (Num 10)) (Native 2 (Num 20))) [Num 7]) = Undefined"
  using C2_compose_calls_both_returns_undefined
    [where opts = "defaultOptions\<lparr>functionMerge := Compose\<rparr>"
       and st = "initial [Callable (Native 1 (Num 10)), Callable (Native 2 (Num 20)),
               PlainObj [(KStr ''k'', Ref 0)], PlainObj [(KStr ''k'', Ref 1)]]"
       and target = "Ref 0" and source = "Ref 1" and rest = "[]" and depth = 0 and n = 0
       and f = "Native 1 (Num 10)" and g = "Native 2 (Num 20)"
       and result = "Ref 2" and k = "KStr ''k''" and args = "[Num 7]"]
  by (simp add: defaultOptions_def initial_def lookup_def getProp_def customDecision_def
        alloc_def writeProp_def)

text \<open>
  The claim lets only the target's return value be discarded. Here the target's function
  returns 10 and the source's function returns 20; the composed function, called with 7,
  calls both in order and returns \<^verbatim>\<open>undefined\<close>, not 20.
\<close>

theorem C2_counterexample:
  "deepmerge 3 noCallbacks
     [Callable (Native 1 (Num 10)), Callable (Native 2 (Num 20)),
      PlainObj [(KStr ''functionMerge'', Str ''compose'')]] (Ref 0) [Ref 1, Ref 2] =
   Some (Inr (Ref 3,
     \<lparr>heap = [Callable (Native 1 (Num 10)), Callable (Native 2 (Num 20)),
              PlainObj [(KStr ''functionMerge'', Str ''compose'')],
              Callable (Composed (Native 1 (Num 10)) (Native 2 (Num 20)))],
      visited = [], warnings = 0\<rparr>)) \<and>
   invoke (Composed (Native 1 (Num 10)) (Native 2 (Num 20))) [Num 7] =
     ([(1, [Num 7]), (2, [Num 7])], Undefined) \<and>
   snd (invoke (Native 2 (Num 20)) [Num 7]) = Num 20 \<and>
   snd (invoke (Composed (Native 1 (Num 10)) (Native 2 (Num 20))) [Num 7]) \<noteq>
     snd (invoke (Native 2 (Num 20)) [Num 7])"
  by code_simp

section \<open>A null source\<close>

text \<open>
  C10. Below the depth limit, with a single source that is \<^verbatim>\<open>null\<close>: a leaf target (for
  which the callback decides nothing) gives \<^verbatim>\<open>null\<close>, since line 187 only tests for
  \<^verbatim>\<open>undefined\<close>; a plain object or an array as target skips the source (line 215) and
  gives the target, or with \<^verbatim>\<open>clone\<close> its shallow copy, with the same properties and
  elements, and no object of the heap is changed.
\<close>

theorem C10_null_source:
  assumes "0 < maxDepth opts"
  shows
   "(\<not> isPlainObject (heap st) target \<longrightarrow> \<not> isArray (heap st) target \<longrightarrow>
       customDecision opts (KStr []) target Null = None \<longrightarrow>
       mergeObjects (Suc n) opts st target [Null] 0 = Some (Inr (Null, st))) \<and>
    (isPlainObject (heap st) target \<or> isArray (heap st) target \<longrightarrow>
       (\<exists>r st'. mergeObjects (Suc n) opts st target [Null] 0 = Some (Inr (r, st')) \<and>
          isPlainObject (heap st') r = isPlainObject (heap st) target \<and>
          isArray (heap st') r = isArray (heap st) target \<and>
          props (heap st') r = props (heap st) target \<and>
          elems (heap st') r = elems (heap st) target \<and>
          (\<forall>a < length (heap st). heap st' ! a = heap st ! a) \<and>
          visited st' = visited st \<and> warnings st' = warnings st \<and>
          (\<not> clone opts \<longrightarrow> r = target \<and> st' = st)))"
proof -
  have d: "\<not> maxDepth opts \<le> 0"
    using assms by simp
  have leaf: "\<not> isPlainObject (heap st) target \<longrightarrow> \<not> isArray (heap st) target \<longrightarrow>
       customDecision opts (KStr []) target Null = None \<longrightarrow>
       mergeObjects (Suc n) opts st target [Null] 0 = Some (Inr (Null, st))"
    using d by (auto split: option.splits)
  have run: "isPlainObject (heap st) target \<or> isArray (heap st) target \<Longrightarrow>
      mergeObjects (Suc n) opts st target [Null] 0 = Some (Inr (cloneTarget opts st target))"
    using d by (auto split: prod.splits)
  have copy: "isPlainObject (heap st) target \<or> isArray (heap st) target \<Longrightarrow>
      cloneTarget opts st target = (r, st') \<Longrightarrow>
          isPlainObject (heap st') r = isPlainObject (heap st) target \<and>
          isArray (heap st') r = isArray (heap st) target \<and>
          props (heap st') r = props (heap st) target \<and>
          elems (heap st') r = elems (heap st) target \<and>
          (\<forall>a < length (heap st). heap st' ! a = heap st ! a) \<and>
          visited st' = visited st \<and> warnings st' = warnings st \<and>
          (\<not> clone opts \<longrightarrow> r = target \<and> st' = st)" for r st'
    by (cases target)
       (auto simp: cloneTarget_def alloc_def lookup_def nth_append
             split: if_splits option.splits obj.splits)
  show ?thesis
  proof (intro conjI impI)
    assume "isPlainObject (heap st) target \<or> isArray (heap st) target"
    then show "\<exists>r st'. mergeObjects (Suc n) opts st target [Null] 0 = Some (Inr (r, st')) \<and>
          isPlainObject (heap st') r = isPlainObject (heap st) target \<and>
          isArray (heap st') r = isArray (heap st) target \<and>
          props (heap st') r = props (heap st) target \<and>
          elems (heap st') r = elems (heap st) target \<and>
          (\<forall>a < length (heap st). heap st' ! a = heap st ! a) \<and>
          visited st' = visited st \<and> warnings st' = warnings st \<and>
          (\<not> clone opts \<longrightarrow> r = target \<and> st' = st)"
      using run copy [of "fst (cloneTarget opts st target)" "snd (cloneTarget opts st target)"]
      by (metis prod.collapse)
  qed (use leaf in blast)
qed

theorem C10_null_source_witness:
  "0 < maxDepth defaultOptions \<and>
   \<not> isPlainObject (heap (initial [PlainObj [(KStr ''a'', Num 1)]])) (Num 1) \<and>
   \<not> isArray (heap (initial [PlainObj [(KStr ''a'', Num 1)]])) (Num 1) \<and>
   customDecision defaultOptions (KStr []) (Num 1) Null = None \<and>
   mergeObjects (Suc 0) defaultOptions (initial [PlainObj [(KStr ''a'', Num 1)]]) (Num 1) [Null] 0 =
     Some (Inr (Null, initial [PlainObj [(KStr ''a'', Num 1)]])) \<and>
   isPlainObject (heap (initial [PlainObj [(KStr ''a'', Num 1)]])) (Ref 0) \<and>
   (\<exists>r st'. mergeObjects (Suc 0) defaultOptions (initial [PlainObj [(KStr ''a'', Num 1)]])
              (Ref 0) [Null] 0 = Some (Inr (r, st')) \<and>
            props (heap st') r = [(KStr ''a'', Num 1)])"
proof -
  have m: "0 < maxDepth defaultOptions"
    by (simp add: defaultOptions_def)
  have p: "isPlainObject (heap (initial [PlainObj [(KStr ''a'', Num 1)]])) (Ref 0)"
    by (simp add: initial_def lookup_def)
  have q: "props (heap (initial [PlainObj [(KStr ''a'', Num 1)]])) (Ref 0) = [(KStr ''a'', Num 1)]"
    by (simp add: initial_def lookup_def)
  have c: "customDecision defaultOptions (KStr []) (Num 1) Null = None"
    by (simp add: customDecision_def defaultOptions_def)
  from C10_null_source [OF m, of "initial [PlainObj [(KStr ''a'', Num 1)]]" "Num 1" 0] c
  have leaf: "mergeObjects (Suc 0) defaultOptions (initial [PlainObj [(KStr ''a'', Num 1)]]) (Num 1) [Null] 0 =
     Some (Inr (Null, initial [PlainObj [(KStr ''a'', Num 1)]]))"
    by simp
  from C10_null_source [OF m, of "initial [PlainObj [(KStr ''a'', Num 1)]]" "Ref 0" 0] p q
  have comp: "\<exists>r st'. mergeObjects (Suc 0) defaultOptions (initial [PlainObj [(KStr ''a'', Num 1)]])
              (Ref 0) [Null] 0 = Some (Inr (r, st')) \<and>
            props (heap st') r = [(KStr ''a'', Num 1)]"
    by metis
  from m p c leaf comp show ?thesis by simp
qed

section \<open>Single steps\<close>

lemma stepClosed_refl: "stepClosed R \<Longrightarrow> R s s"
  by (simp add: stepClosed_def)

lemma stepClosed_trans: "stepClosed R \<Longrightarrow> R s1 s2 \<Longrightarrow> R s2 s3 \<Longrightarrow> R s1 s3"
  unfolding stepClosed_def by blast

lemma stepClosed_alloc: "stepClosed R \<Longrightarrow> alloc s ob = (r, s') \<Longrightarrow> R s s'"
  unfolding stepClosed_def by (metis snd_conv)

lemma stepClosed_write: "stepClosed R \<Longrightarrow> R s (writeProp s r k v)"
  by (simp add: stepClosed_def)

lemma mergeElems_only_target [simp]: "mergeElems n opts st ts [] = Some (Inr (ts, st))"
  by (induction ts) auto

lemma mergeElems_only_source [simp]: "mergeElems n opts st [] ss = Some (Inr (ss, st))"
  by (induction ss) auto

section \<open>The heap only grows\<close>

lemma sameKind_refl [simp]: "sameKind a a"
  by (cases a) auto

lemma sameKind_trans: "sameKind a b \<Longrightarrow> sameKind b c \<Longrightarrow> sameKind a c"
  by (cases a; cases b; cases c) auto

lemma sameKind_setProp:
  "a < length h \<Longrightarrow> sameKind (h ! a) (setProp h r k v ! a)"
  by (cases r) (auto simp: lookup_def nth_list_update split: obj.splits)

lemma length_setProp [simp]: "length (setProp h r k v) = length h"
  by (cases r) (auto split: option.splits obj.splits)

lemma stepClosed_extends: "stepClosed extends"
  unfolding stepClosed_def extends_def
  by (auto simp: alloc_def writeProp_def nth_append sameKind_setProp
           intro: sameKind_trans)

lemma extends_isPlainObject:
  "extends st st' \<Longrightarrow> validIn (heap st) v \<Longrightarrow>
   isPlainObject (heap st') v = isPlainObject (heap st) v"
  apply (cases v; simp add: extends_def lookup_def)
  subgoal for a
    by (cases "heap st ! a"; cases "heap st' ! a"; fastforce)
  done

section \<open>Trees denoted by values\<close>

lemma pureObjects_unfold:
  "pureObjects opts depth target source =
     (if maxDepth opts \<le> int depth then target
      else if \<not> isSObj target \<and> \<not> isSArr target then pureLeaf opts target source
      else if source = SScalar Null \<or> source = SScalar Undefined then target
      else if isSArr target \<and> isSArr source then pureArrays opts target source
      else if isSObj target \<and> isSObj source then
        SObj (fold (pureKey opts depth (sprops source))
               (keyOrder (map fst (sprops target)) (map fst (sprops source)))
               (sprops target))
      else source)"
  unfolding pureKey_def pureArrays_def by (subst pureObjects.simps) (rule refl)

declare pureObjects.simps [simp del]

inductive_cases unfolds_RefE: "unfolds h (Ref a) t as"

inductive_cases unfolds_UndefinedE: "unfolds h Undefined t as"

inductive_cases unfolds_NullE: "unfolds h Null t as"

inductive_cases unfolds_NumE: "unfolds h (Num n) t as"

inductive_cases unfolds_StrE: "unfolds h (Str s) t as"

inductive_cases unfolds_BoolE: "unfolds h (Bool b) t as"

inductive_cases unfoldsProps_NilE: "unfoldsProps h [] qs as"

inductive_cases unfoldsProps_ConsE: "unfoldsProps h (p # ps) qs as"

inductive_cases unfoldsElems_NilE: "unfoldsElems h [] ts as"

inductive_cases unfoldsElems_ConsE: "unfoldsElems h (x # xs) ts as"

lemma unfolds_valid:
  "unfolds h v t as \<Longrightarrow> (\<forall>a \<in> set as. a < length h) \<and> validIn h v"
  "unfoldsProps h ps qs as \<Longrightarrow> (\<forall>a \<in> set as. a < length h)"
  "unfoldsElems h xs ts as \<Longrightarrow> (\<forall>a \<in> set as. a < length h)"
proof (induction rule: unfolds_unfoldsProps_unfoldsElems.inducts)
  case (scalar v)
  then show ?case by (cases v) auto
qed (auto simp: lookup_def split: if_splits)

lemma unfolds_sameAt:
  "unfolds h v t as \<Longrightarrow> sameAt as h h' \<Longrightarrow> unfolds h' v t as"
  "unfoldsProps h ps qs as \<Longrightarrow> sameAt as h h' \<Longrightarrow> unfoldsProps h' ps qs as"
  "unfoldsElems h xs ts as \<Longrightarrow> sameAt as h h' \<Longrightarrow> unfoldsElems h' xs ts as"
proof (induction rule: unfolds_unfoldsProps_unfoldsElems.inducts)
  case (scalar v)
  then show ?case by (auto intro: unfolds_unfoldsProps_unfoldsElems.scalar)
next
  case (plain a ps qs as)
  then show ?case
    by (simp add: sameAt_def unfolds_unfoldsProps_unfoldsElems.plain)
next
  case (array a xs ts as)
  then show ?case
    by (simp add: sameAt_def unfolds_unfoldsProps_unfoldsElems.array)
next
  case (callable a f)
  then show ?case
    by (simp add: sameAt_def unfolds_unfoldsProps_unfoldsElems.callable)
next
  case (opaque a s)
  then show ?case
    by (simp add: sameAt_def unfolds_unfoldsProps_unfoldsElems.opaque)
next
  case noProps
  show ?case by (rule unfolds_unfoldsProps_unfoldsElems.noProps)
next
  case (props v t as1 ps qs as2 k)
  then show ?case
    by (simp add: sameAt_def unfolds_unfoldsProps_unfoldsElems.props)
next
  case noElems
  show ?case by (rule unfolds_unfoldsProps_unfoldsElems.noElems)
next
  case (elems v t as1 vs ts as2)
  then show ?case
    by (simp add: sameAt_def unfolds_unfoldsProps_unfoldsElems.elems)
qed

lemma unfolds_unique:
  "unfolds h v t as \<Longrightarrow> unfolds h v t' as' \<Longrightarrow> t = t' \<and> as = as'"
  "unfoldsProps h ps qs as \<Longrightarrow> unfoldsProps h ps qs' as' \<Longrightarrow> qs = qs' \<and> as = as'"
  "unfoldsElems h xs ts as \<Longrightarrow> unfoldsElems h xs ts' as' \<Longrightarrow> ts = ts' \<and> as = as'"
proof (induction arbitrary: t' as' and qs' as' and ts' as'
       rule: unfolds_unfoldsProps_unfoldsElems.inducts)
  case (scalar v)
  then show ?case
    by (cases v)
       (auto elim: unfolds_UndefinedE unfolds_NullE unfolds_NumE unfolds_StrE unfolds_BoolE)
next
  case (plain a ps qs as)
  from plain(4) plain(1) obtain qs' as'' where
    "unfoldsProps h ps qs' as''" "t' = SObj qs'" "as' = a # as''"
    by (auto elim: unfolds_RefE)
  with plain(3) show ?case by blast
next
  case (array a xs ts as)
  from array(4) array(1) obtain ts' as'' where
    "unfoldsElems h xs ts' as''" "t' = SArr ts'" "as' = a # as''"
    by (auto elim: unfolds_RefE)
  with array(3) show ?case by blast
next
  case (callable a f)
  from callable(2) callable(1) show ?case
    by (auto elim: unfolds_RefE)
next
  case (opaque a s)
  from opaque(2) opaque(1) show ?case
    by (auto elim: unfolds_RefE)
next
  case noProps
  then show ?case by (auto elim: unfoldsProps_NilE)
next
  case (props v t as1 ps qs as2 k)
  from props(5) obtain t2 as3 qs2 as4 where
    "unfolds h v t2 as3" "unfoldsProps h ps qs2 as4" "qs' = (k, t2) # qs2" "as' = as3 @ as4"
    by (auto elim: unfoldsProps_ConsE)
  with props(2,4) show ?case by blast
next
  case noElems
  then show ?case by (auto elim: unfoldsElems_NilE)
next
  case (elems v t as1 vs ts as2)
  from elems(5) obtain t2 as3 ts2 as4 where
    "unfolds h v t2 as3" "unfoldsElems h vs ts2 as4" "ts' = t2 # ts2" "as' = as3 @ as4"
    by (auto elim: unfoldsElems_ConsE)
  with elems(2,4) show ?case by blast
qed

lemma getProp_propOf: "lookup h a = Some (PlainObj ps) \<Longrightarrow> getProp h (Ref a) k = propOf ps k"
  by (simp add: getProp_def propOf_def)

lemma unfoldsProps_keys: "unfoldsProps h ps qs as \<Longrightarrow> map fst qs = map fst ps"
  by (induction ps arbitrary: qs as) (auto elim: unfoldsProps_NilE unfoldsProps_ConsE)

lemma unfolds_Undefined: "unfolds h Undefined (SScalar Undefined) []"
  by (rule unfolds_unfoldsProps_unfoldsElems.scalar) simp

lemma unfoldsProps_lookup:
  "unfoldsProps h ps qs as \<Longrightarrow>
   \<exists>as'. unfolds h (propOf ps k) (sprop qs k) as' \<and> set as' \<subseteq> set as \<and>
         (distinct as \<longrightarrow> distinct as')"
proof (induction ps arbitrary: qs as)
  case Nil
  then show ?case
    by (auto elim!: unfoldsProps_NilE simp: propOf_def sprop_def intro: unfolds_Undefined)
next
  case (Cons p ps)
  from Cons.prems obtain k0 v t as1 qs' as2 where
    p: "p = (k0, v)" and u: "unfolds h v t as1" and r: "unfoldsProps h ps qs' as2"
    and q: "qs = (k0, t) # qs'" and a: "as = as1 @ as2"
    by (auto elim: unfoldsProps_ConsE)
  show ?case
  proof (cases "k = k0")
    case True
    with p q a u show ?thesis by (auto simp: propOf_def sprop_def)
  next
    case False
    from Cons.IH [OF r] obtain as' where
      "unfolds h (propOf ps k) (sprop qs' k) as'" "set as' \<subseteq> set as2"
      "distinct as2 \<longrightarrow> distinct as'"
      by blast
    with False p q a show ?thesis by (auto simp: propOf_def sprop_def)
  qed
qed

lemma unfoldsProps_disjoint:
  "unfoldsProps h ps qs as \<Longrightarrow> distinct as \<Longrightarrow> k \<noteq> k' \<Longrightarrow>
   unfolds h (propOf ps k) t1 as1 \<Longrightarrow> unfolds h (propOf ps k') t2 as2 \<Longrightarrow>
   set as1 \<inter> set as2 = {}"
proof (induction ps arbitrary: qs as)
  case Nil
  then show ?case
    by (auto simp: propOf_def elim: unfolds_UndefinedE)
next
  case (Cons p ps)
  from Cons.prems(1) obtain k0 v t as3 qs' as4 where
    p: "p = (k0, v)" and u: "unfolds h v t as3" and r: "unfoldsProps h ps qs' as4"
    and a: "as = as3 @ as4"
    by (auto elim: unfoldsProps_ConsE)
  from Cons.prems(2) a have d: "distinct as4" "set as3 \<inter> set as4 = {}"
    by auto
  have inner: "\<And>j t' as'. j \<noteq> k0 \<Longrightarrow> unfolds h (propOf (p # ps) j) t' as' \<Longrightarrow>
      unfolds h (propOf ps j) t' as' \<and> set as' \<subseteq> set as4"
  proof -
    fix j t' as'
    assume j: "j \<noteq> k0" and uj: "unfolds h (propOf (p # ps) j) t' as'"
    from j p have e: "propOf (p # ps) j = propOf ps j"
      by (simp add: propOf_def)
    from unfoldsProps_lookup [OF r, of j] obtain as5 where
      "unfolds h (propOf ps j) (sprop qs' j) as5" "set as5 \<subseteq> set as4"
      by blast
    with uj e unfolds_unique(1) show "unfolds h (propOf ps j) t' as' \<and> set as' \<subseteq> set as4"
      by metis
  qed
  have head: "\<And>t' as'. unfolds h (propOf (p # ps) k0) t' as' \<Longrightarrow> as' = as3"
    using p u unfolds_unique(1) by (fastforce simp: propOf_def)
  show ?case
  proof (cases "k = k0")
    case True
    with Cons.prems(3) have "k' \<noteq> k0" by simp
    from inner [OF this Cons.prems(5)] head [of t1 as1] True Cons.prems(4) d show ?thesis
      by auto
  next
    case False
    note kk = inner [OF False Cons.prems(4)]
    show ?thesis
    proof (cases "k' = k0")
      case True
      with kk head [of t2 as2] Cons.prems(5) d show ?thesis by auto
    next
      case False
      from inner [OF False Cons.prems(5)] kk Cons.IH [OF r d(1) Cons.prems(3)] show ?thesis
        by blast
    qed
  qed
qed

lemma unfoldsProps_assign:
  "unfoldsProps h ps qs as \<Longrightarrow> unfolds h v t av \<Longrightarrow>
   \<exists>as'. unfoldsProps h (assign ps k v) (assign qs k t) as' \<and> set as' \<subseteq> set as \<union> set av"
proof (induction ps arbitrary: qs as)
  case Nil
  then have "qs = []" by (auto elim: unfoldsProps_NilE)
  moreover have "unfoldsProps h [(k, v)] [(k, t)] (av @ [])"
    using Nil.prems(2) by (intro unfolds_unfoldsProps_unfoldsElems.props
        unfolds_unfoldsProps_unfoldsElems.noProps)
  ultimately show ?case by auto
next
  case (Cons p ps)
  from Cons.prems(1) obtain k0 v0 t0 as1 qs' as2 where
    p: "p = (k0, v0)" and u: "unfolds h v0 t0 as1" and r: "unfoldsProps h ps qs' as2"
    and q: "qs = (k0, t0) # qs'" and a: "as = as1 @ as2"
    by (auto elim: unfoldsProps_ConsE)
  show ?case
  proof (cases "k0 = k")
    case True
    have "unfoldsProps h ((k, v) # ps) ((k, t) # qs') (av @ as2)"
      using Cons.prems(2) r by (rule unfolds_unfoldsProps_unfoldsElems.props)
    with True p q a show ?thesis by auto
  next
    case False
    from Cons.IH [OF r Cons.prems(2)] obtain as' where
      i: "unfoldsProps h (assign ps k v) (assign qs' k t) as'" and s: "set as' \<subseteq> set as2 \<union> set av"
      by blast
    have "unfoldsProps h ((k0, v0) # assign ps k v) ((k0, t0) # assign qs' k t) (as1 @ as')"
      using u i by (rule unfolds_unfoldsProps_unfoldsElems.props)
    moreover have "set (as1 @ as') \<subseteq> set as \<union> set av"
      using a s by auto
    ultimately show ?thesis
      using False p q by (intro exI [of _ "as1 @ as'"]) simp
  qed
qed

section \<open>Objects left as they were\<close>

lemma lookup_append:
  "lookup (h @ [ob]) a =
     (if a < length h then lookup h a else if a = length h then Some ob else None)"
  by (simp add: lookup_def nth_append)

lemma lookup_setProp:
  "lookup h N = Some (PlainObj ps) \<Longrightarrow>
   lookup (setProp h (Ref N) k v) a =
     (if a = N then Some (PlainObj (assign ps k v)) else lookup h a)"
  by (auto simp: lookup_def split: if_splits)

lemma lookup_valid: "lookup h a = Some ob \<Longrightarrow> a < length h"
  by (simp add: lookup_def split: if_splits)

lemma unfolds_scalar_shape:
  "unfolds h v t as \<Longrightarrow> (\<And>a. v \<noteq> Ref a) \<Longrightarrow> t = SScalar v \<and> as = []"
  by (cases v)
     (auto elim: unfolds_UndefinedE unfolds_NullE unfolds_NumE unfolds_StrE unfolds_BoolE)

lemma unfolds_object_shape:
  "unfolds h (Ref a) t as \<Longrightarrow>
     (\<exists>ps qs as'. lookup h a = Some (PlainObj ps) \<and> unfoldsProps h ps qs as' \<and>
        t = SObj qs \<and> as = a # as') \<or>
     (\<exists>xs ts as'. lookup h a = Some (Arr xs) \<and> unfoldsElems h xs ts as' \<and>
        t = SArr ts \<and> as = a # as') \<or>
     (\<exists>f. lookup h a = Some (Callable f) \<and> t = SFun f \<and> as = [a]) \<or>
     (\<exists>s. lookup h a = Some (Opaque s) \<and> t = SOpaque s \<and> as = [a])"
  by (erule unfolds_RefE) auto

lemma unfolds_kind:
  assumes "unfolds h v t as"
  shows "isPlainObject h v = isSObj t" and "isArray h v = isSArr t"
    and "asFunction h v = (case t of SFun f \<Rightarrow> Some f | _ \<Rightarrow> None)"
    and "(v = Undefined) = (t = SScalar Undefined)"
    and "(v = Null) = (t = SScalar Null)"
    and "isSScalar t \<Longrightarrow> t = SScalar v"
proof -
  have "isPlainObject h v = isSObj t \<and> isArray h v = isSArr t \<and>
      asFunction h v = (case t of SFun f \<Rightarrow> Some f | _ \<Rightarrow> None) \<and>
      (v = Undefined) = (t = SScalar Undefined) \<and> (v = Null) = (t = SScalar Null) \<and>
      (isSScalar t \<longrightarrow> t = SScalar v)"
  proof (cases "\<exists>a. v = Ref a")
    case True
    then obtain a where v: "v = Ref a" by blast
    from unfolds_object_shape [OF assms [unfolded v]] v show ?thesis
      by (elim disjE exE conjE) simp_all
  next
    case False
    with unfolds_scalar_shape [OF assms] have "t = SScalar v" by blast
    with False show ?thesis by (cases v) simp_all
  qed
  then show "isPlainObject h v = isSObj t" and "isArray h v = isSArr t"
    and "asFunction h v = (case t of SFun f \<Rightarrow> Some f | _ \<Rightarrow> None)"
    and "(v = Undefined) = (t = SScalar Undefined)"
    and "(v = Null) = (t = SScalar Null)"
    and "isSScalar t \<Longrightarrow> t = SScalar v"
    by blast+
qed

lemma frame_sameAt: "frame st st' \<Longrightarrow> \<forall>a \<in> set as. a < length (heap st) \<Longrightarrow>
    sameAt as (heap st) (heap st')"
  by (simp add: frame_def sameAt_def)

lemma frame_unfolds:
  assumes "frame st st'"
  shows "unfolds (heap st) v t as \<Longrightarrow> unfolds (heap st') v t as"
    and "unfoldsProps (heap st) ps qs as \<Longrightarrow> unfoldsProps (heap st') ps qs as"
    and "unfoldsElems (heap st) xs ts as \<Longrightarrow> unfoldsElems (heap st') xs ts as"
proof -
  show "unfolds (heap st) v t as \<Longrightarrow> unfolds (heap st') v t as"
    using unfolds_sameAt(1) frame_sameAt [OF assms] unfolds_valid(1) by blast
  show "unfoldsProps (heap st) ps qs as \<Longrightarrow> unfoldsProps (heap st') ps qs as"
    using unfolds_sameAt(2) frame_sameAt [OF assms] unfolds_valid(2) by blast
  show "unfoldsElems (heap st) xs ts as \<Longrightarrow> unfoldsElems (heap st') xs ts as"
    using unfolds_sameAt(3) frame_sameAt [OF assms] unfolds_valid(3) by blast
qed

lemma frame_refl [simp]: "frame st st"
  by (simp add: frame_def)

lemma frame_length: "frame st st' \<Longrightarrow> length (heap st) \<le> length (heap st')"
proof (cases "length (heap st)")
  case 0
  then show ?thesis by simp
next
  case (Suc m)
  assume "frame st st'"
  with Suc have "lookup (heap st') m = lookup (heap st) m"
    by (simp add: frame_def)
  with Suc have "m < length (heap st')"
    by (simp add: lookup_def split: if_splits)
  with Suc show ?thesis by simp
qed

lemma frame_trans: "frame st1 st2 \<Longrightarrow> frame st2 st3 \<Longrightarrow> frame st1 st3"
proof -
  assume a: "frame st1 st2" and b: "frame st2 st3"
  show ?thesis
    unfolding frame_def
  proof (intro allI impI)
    fix x
    assume x: "x < length (heap st1)"
    with frame_length [OF a] have "x < length (heap st2)" by simp
    with a b x show "lookup (heap st3) x = lookup (heap st1) x"
      by (simp add: frame_def)
  qed
qed

lemma frame_alloc: "alloc st ob = (r, st') \<Longrightarrow> frame st st' \<and> vis st' = vis st \<and> r = Ref (length (heap st)) \<and> lookup (heap st') (length (heap st)) = Some ob \<and> length (heap st') = Suc (length (heap st))"
  by (auto simp: alloc_def frame_def lookup_append vis_def)

lemma write_refines:
  assumes f: "frame st st1"
    and r: "lookup (heap st) N = Some (PlainObj rp)" "unfoldsProps (heap st) rp rq ras"
           "N \<notin> set ras"
    and v: "unfolds (heap st1) v t av" "N \<notin> set av"
  shows "\<exists>rp' ras'.
           lookup (heap (writeProp st1 (Ref N) k v)) N = Some (PlainObj rp') \<and>
           unfoldsProps (heap (writeProp st1 (Ref N) k v)) rp' (assign rq k t) ras' \<and>
           set ras' \<subseteq> set ras \<union> set av \<and>
           frameExcept N st (writeProp st1 (Ref N) k v) \<and>
           vis (writeProp st1 (Ref N) k v) = vis st1 \<and>
           length (heap (writeProp st1 (Ref N) k v)) = length (heap st1)"
proof -
  let ?st2 = "writeProp st1 (Ref N) k v"
  from r(1) have N: "N < length (heap st)" by (rule lookup_valid)
  from f r(1) N have l1: "lookup (heap st1) N = Some (PlainObj rp)"
    by (simp add: frame_def)
  have h2: "heap ?st2 = setProp (heap st1) (Ref N) k v"
    by (simp add: writeProp_def)
  have look: "\<And>a. lookup (heap ?st2) a =
      (if a = N then Some (PlainObj (assign rp k v)) else lookup (heap st1) a)"
    unfolding h2 using l1 by (rule lookup_setProp)
  from frame_unfolds(2) [OF f r(2)] have u1: "unfoldsProps (heap st1) rp rq ras" .
  from unfoldsProps_assign [OF u1 v(1), of k] obtain ras' where
    a: "unfoldsProps (heap st1) (assign rp k v) (assign rq k t) ras'"
    and s: "set ras' \<subseteq> set ras \<union> set av"
    by blast
  from s r(3) v(2) have "N \<notin> set ras'" by auto
  then have "sameAt ras' (heap st1) (heap ?st2)"
    by (auto simp: sameAt_def look)
  from unfolds_sameAt(2) [OF a this]
  have u2: "unfoldsProps (heap ?st2) (assign rp k v) (assign rq k t) ras'" .
  have fe: "frameExcept N st ?st2"
    using f by (simp add: frameExcept_def frame_def look)
  have "vis ?st2 = vis st1"
    by (simp add: vis_def writeProp_def)
  moreover have "length (heap ?st2) = length (heap st1)"
    by (simp only: h2 length_setProp)
  ultimately show ?thesis
    using look u2 s fe by auto
qed

section \<open>One key of the loop refines its tree\<close>

declare mergeKey.simps [simp del] mergeSource.simps [simp del] mergeArrays.simps [simp del]

lemma pureKey_functions:
  "sprop rq k = SFun f \<Longrightarrow> sprop sq k = SFun g \<Longrightarrow>
   pureKey opts d sq k rq = assign rq k (pureFunctions opts f g (SFun g))"
  by (simp add: pureKey_def)

lemma pureKey_others:
  "\<not> (\<exists>f g. sprop rq k = SFun f \<and> sprop sq k = SFun g) \<Longrightarrow>
   pureKey opts d sq k rq =
     (if isSObj (sprop rq k) \<and> isSObj (sprop sq k) then
        assign rq k (pureObjects opts (Suc d) (sprop rq k) (sprop sq k))
      else if isSArr (sprop rq k) \<and> isSArr (sprop sq k) then
        assign rq k (pureArrays opts (sprop rq k) (sprop sq k))
      else if sprop sq k \<noteq> SScalar Undefined then assign rq k (sprop sq k)
      else rq)"
  by (auto simp: pureKey_def Let_def split: shape.splits)

lemma mergeKey_functions:
  "customDecision opts k (getProp (heap st) result k) (getProp (heap st) source k) = None \<Longrightarrow>
   asFunction (heap st) (getProp (heap st) result k) = Some f \<Longrightarrow>
   asFunction (heap st) (getProp (heap st) source k) = Some g \<Longrightarrow>
   mergeKey n opts st result source k d =
     (case mergeFunctions opts st f g (getProp (heap st) source k) of
        (v, st1) \<Rightarrow> Some (Inr (writeProp st1 result k v)))"
  by (simp add: mergeKey.simps Let_def)

lemma mergeKey_others:
  "customDecision opts k (getProp (heap st) result k) (getProp (heap st) source k) = None \<Longrightarrow>
   \<not> (\<exists>f g. asFunction (heap st) (getProp (heap st) result k) = Some f \<and>
             asFunction (heap st) (getProp (heap st) source k) = Some g) \<Longrightarrow>
   mergeKey n opts st result source k d =
     (if isPlainObject (heap st) (getProp (heap st) result k) \<and>
         isPlainObject (heap st) (getProp (heap st) source k) then
        andThen (mergeObjects n opts st (getProp (heap st) result k)
                   [getProp (heap st) source k] (Suc d))
          (\<lambda>(v, st1). Some (Inr (writeProp st1 result k v)))
      else if isArray (heap st) (getProp (heap st) result k) \<and>
              isArray (heap st) (getProp (heap st) source k) then
        andThen (mergeArrays n opts st (getProp (heap st) result k) (getProp (heap st) source k))
          (\<lambda>(v, st1). Some (Inr (writeProp st1 result k v)))
      else if getProp (heap st) source k \<noteq> Undefined then
        Some (Inr (writeProp st result k (getProp (heap st) source k)))
      else Some (Inr st))"
  by (auto simp: mergeKey.simps Let_def split: option.splits)

lemma elems_refines:
  assumes O: "objectsRefine n opts"
  shows "unfoldsElems (heap st) xs tts ta \<Longrightarrow> unfoldsElems (heap st) ys tss sa \<Longrightarrow>
     distinct sa \<Longrightarrow> set sa \<inter> vis st = {} \<Longrightarrow> \<forall>s \<in> set tss. size s < n \<Longrightarrow>
     \<exists>ms st' ma.
       mergeElems n opts st xs ys = Some (Inr (ms, st')) \<and>
       unfoldsElems (heap st') ms (pureElems opts tts tss) ma \<and>
       set ma \<subseteq> set ta \<union> set sa \<union> {a. length (heap st) \<le> a} \<and>
       frame st st' \<and> vis st' \<subseteq> vis st \<union> set sa"
proof (induction xs ys arbitrary: st tts tss ta sa rule: list_induct2')
  case 1
  then have "tts = []" "tss = []" "ta = []"
    by (auto elim: unfoldsElems_NilE)
  then show ?case
    by (auto intro: unfolds_unfoldsProps_unfoldsElems.noElems)
next
  case (2 x xs)
  from 2(2) have "tss = []" by (auto elim: unfoldsElems_NilE)
  with 2(1) show ?case
    by (intro exI [of _ "x # xs"] exI [of _ st] exI [of _ ta]) auto
next
  case (3 y ys)
  from 3(1) have t: "tts = []" by (auto elim: unfoldsElems_NilE)
  from 3(2) obtain s tss' where "tss = s # tss'" by (auto elim: unfoldsElems_ConsE)
  with 3(2) t show ?case
    by (intro exI [of _ "y # ys"] exI [of _ st] exI [of _ sa]) auto
next
  case (4 x xs y ys)
  from 4(2) obtain t tts' a1 a2 where
    tts: "tts = t # tts'" and ta: "ta = a1 @ a2"
    and ux: "unfolds (heap st) x t a1" and uxs: "unfoldsElems (heap st) xs tts' a2"
    by (auto elim: unfoldsElems_ConsE)
  from 4(3) obtain s tss' b1 b2 where
    tss: "tss = s # tss'" and sa: "sa = b1 @ b2"
    and uy: "unfolds (heap st) y s b1" and uys: "unfoldsElems (heap st) ys tss' b2"
    by (auto elim: unfoldsElems_ConsE)
  from 4(4) sa have d1: "distinct b1" and d2: "distinct b2" and d12: "set b1 \<inter> set b2 = {}"
    by auto
  from 4(5) sa have v1: "set b1 \<inter> vis st = {}" and v2: "set b2 \<inter> vis st = {}"
    by auto
  from 4(6) tss have z1: "size s < n" and z2: "\<forall>s \<in> set tss'. size s < n"
    by auto
  note kx = unfolds_kind [OF ux] and ky = unfolds_kind [OF uy]
  show ?case
  proof (cases "isSObj t \<and> isSObj s")
    case True
    then have "mergeable t s"
      by (cases s) (auto simp: mergeable_def)
    with O ux uy d1 v1 z1 have "\<exists>r st' ra.
         mergeObjects n opts st x [y] 0 = Some (Inr (r, st')) \<and>
         unfolds (heap st') r (pureObjects opts 0 t s) ra \<and>
         set ra \<subseteq> set a1 \<union> set b1 \<union> {a. length (heap st) \<le> a} \<and>
         frame st st' \<and> vis st' \<subseteq> vis st \<union> set b1"
      unfolding objectsRefine_def by blast
    then obtain v st1 av where
      m: "mergeObjects n opts st x [y] 0 = Some (Inr (v, st1))"
      and u: "unfolds (heap st1) v (pureObjects opts 0 t s) av"
      and a: "set av \<subseteq> set a1 \<union> set b1 \<union> {a. length (heap st) \<le> a}"
      and f: "frame st st1" and vs: "vis st1 \<subseteq> vis st \<union> set b1"
      by blast
    note uxs1 = frame_unfolds(3) [OF f uxs] and uys1 = frame_unfolds(3) [OF f uys]
    from vs v2 d12 have v21: "set b2 \<inter> vis st1 = {}" by blast
    from 4(1) [OF uxs1 uys1 d2 v21 z2] obtain ms st' ma where
      m': "mergeElems n opts st1 xs ys = Some (Inr (ms, st'))"
      and u': "unfoldsElems (heap st') ms (pureElems opts tts' tss') ma"
      and a': "set ma \<subseteq> set a2 \<union> set b2 \<union> {a. length (heap st1) \<le> a}"
      and f': "frame st1 st'" and vs': "vis st' \<subseteq> vis st1 \<union> set b2"
      by blast
    note l = frame_length [OF f]
    have "mergeElems n opts st (x # xs) (y # ys) = Some (Inr (v # ms, st'))"
      using True kx(1) ky(1) m m' by simp
    moreover have "unfoldsElems (heap st') (v # ms) (pureElems opts tts tss) (av @ ma)"
      using frame_unfolds(1) [OF f' u] u' True tts tss
      by (auto intro: unfolds_unfoldsProps_unfoldsElems.elems)
    moreover have "set (av @ ma) \<subseteq> set ta \<union> set sa \<union> {a. length (heap st) \<le> a}"
    proof
      fix z
      assume "z \<in> set (av @ ma)"
      with a a' have "z \<in> set a1 \<or> z \<in> set b1 \<or> length (heap st) \<le> z \<or>
          z \<in> set a2 \<or> z \<in> set b2 \<or> length (heap st1) \<le> z"
        by auto
      with l ta sa show "z \<in> set ta \<union> set sa \<union> {a. length (heap st) \<le> a}"
        by auto
    qed
    moreover have "frame st st'" using f f' by (rule frame_trans)
    moreover have "vis st' \<subseteq> vis st \<union> set sa" using vs vs' sa by auto
    ultimately show ?thesis
      by (intro exI [of _ "v # ms"] exI [of _ st'] exI [of _ "av @ ma"]) simp
  next
    case False
    from 4(1) [OF uxs uys d2 v2 z2] obtain ms st' ma where
      m': "mergeElems n opts st xs ys = Some (Inr (ms, st'))"
      and u': "unfoldsElems (heap st') ms (pureElems opts tts' tss') ma"
      and a': "set ma \<subseteq> set a2 \<union> set b2 \<union> {a. length (heap st) \<le> a}"
      and f': "frame st st'" and vs': "vis st' \<subseteq> vis st \<union> set b2"
      by blast
    have "mergeElems n opts st (x # xs) (y # ys) = Some (Inr (y # ms, st'))"
      using False kx(1) ky(1) m' by auto
    moreover have "unfoldsElems (heap st') (y # ms) (pureElems opts tts tss) (b1 @ ma)"
      using frame_unfolds(1) [OF f' uy] u' False tts tss
      by (auto intro: unfolds_unfoldsProps_unfoldsElems.elems)
    moreover have "set (b1 @ ma) \<subseteq> set ta \<union> set sa \<union> {a. length (heap st) \<le> a}"
      using a' ta sa by auto
    moreover have "vis st' \<subseteq> vis st \<union> set sa" using vs' sa by auto
    ultimately show ?thesis
      using f' by (intro exI [of _ "y # ms"] exI [of _ st'] exI [of _ "b1 @ ma"]) simp
  qed
qed

lemma size_selems: "t \<in> set (selems s) \<Longrightarrow> size t < size s"
  by (cases s) (auto simp: less_Suc_eq_le intro: size_list_estimation')

lemma arrays_refines:
  assumes O: "objectsRefine n opts" and P: "plainOptions opts"
    and ut: "unfolds (heap st) tv tt ta" and it: "isSArr tt"
    and us: "unfolds (heap st) sv ts sa" and ia: "isSArr ts"
    and ds: "distinct sa" and vs: "set (tl sa) \<inter> vis st = {}" and sz: "size ts \<le> n"
  shows "\<exists>A st1 as'. mergeArrays n opts st tv sv = Some (Inr (Ref A, st1)) \<and>
           length (heap st) \<le> A \<and> unfolds (heap st1) (Ref A) (pureArrays opts tt ts) (A # as') \<and>
           set as' \<subseteq> set ta \<union> set sa \<union> {a. length (heap st) \<le> a} \<and>
           frame st st1 \<and> vis st1 \<subseteq> vis st \<union> set sa"
proof -
  from ia obtain tss where ts: "ts = SArr tss" by (cases ts) auto
  from it obtain tts where tt: "tt = SArr tts" by (cases tt) auto
  from unfolds_scalar_shape [OF us] ts obtain b where sv: "sv = Ref b"
    by (cases sv) auto
  from unfolds_object_shape [OF us [unfolded sv]] ts obtain ys sa' where
    ls: "lookup (heap st) b = Some (Arr ys)" and es: "unfoldsElems (heap st) ys tss sa'"
    and sa: "sa = b # sa'"
    by auto
  from unfolds_scalar_shape [OF ut] tt obtain c where tv: "tv = Ref c"
    by (cases tv) auto
  from unfolds_object_shape [OF ut [unfolded tv]] tt obtain xs ta' where
    lt: "lookup (heap st) c = Some (Arr xs)" and et: "unfoldsElems (heap st) xs tts ta'"
    and ta: "ta = c # ta'"
    by auto
  from P have "arrayMerge opts = Replace \<or> arrayMerge opts = Merge"
    by (simp add: plainOptions_def)
  then show ?thesis
  proof
    assume R: "arrayMerge opts = Replace"
    obtain r st1 where al: "alloc st (Arr ys) = (r, st1)"
      by (cases "alloc st (Arr ys)")
    note fa = frame_alloc [OF al]
    from fa have f: "frame st st1" by simp
    from frame_unfolds(3) [OF f es] fa
    have "unfolds (heap st1) (Ref (length (heap st))) (SArr tss) (length (heap st) # sa')"
      by (intro unfolds_unfoldsProps_unfoldsElems.array) auto
    moreover have "mergeArrays n opts st tv sv = Some (Inr (Ref (length (heap st)), st1))"
      using R ls sv al fa by (simp add: mergeArrays.simps)
    moreover have "pureArrays opts tt ts = SArr tss"
      using R ts by (simp add: pureArrays_def)
    ultimately show ?thesis
      using sa fa
      by (intro exI [of _ "length (heap st)"] exI [of _ st1] exI [of _ sa']) auto
  next
    assume M: "arrayMerge opts = Merge"
    from ds sa have d': "distinct sa'" by simp
    from vs sa have v': "set sa' \<inter> vis st = {}" by simp
    have z: "\<forall>s \<in> set tss. size s < n"
    proof
      fix s
      assume "s \<in> set tss"
      with ts have "s \<in> set (selems ts)" by simp
      then have "size s < size ts" by (rule size_selems)
      with sz show "size s < n" by simp
    qed
    from elems_refines [OF O et es d' v' z] obtain ms st' ma where
      m: "mergeElems n opts st xs ys = Some (Inr (ms, st'))"
      and u: "unfoldsElems (heap st') ms (pureElems opts tts tss) ma"
      and a: "set ma \<subseteq> set ta' \<union> set sa' \<union> {a. length (heap st) \<le> a}"
      and f: "frame st st'" and v: "vis st' \<subseteq> vis st \<union> set sa'"
      by blast
    obtain r st1 where al: "alloc st' (Arr ms) = (r, st1)"
      by (cases "alloc st' (Arr ms)")
    note fa = frame_alloc [OF al]
    from fa have f1: "frame st' st1" by simp
    from frame_unfolds(3) [OF f1 u] fa
    have "unfolds (heap st1) (Ref (length (heap st'))) (SArr (pureElems opts tts tss))
        (length (heap st') # ma)"
      by (intro unfolds_unfoldsProps_unfoldsElems.array) auto
    moreover have "mergeArrays n opts st tv sv = Some (Inr (Ref (length (heap st')), st1))"
      using M ls lt sv tv al fa m by (simp add: mergeArrays.simps)
    moreover have "pureArrays opts tt ts = SArr (pureElems opts tts tss)"
      using M ts tt by (simp add: pureArrays_def)
    moreover have "frame st st1" using f f1 by (rule frame_trans)
    moreover have "vis st1 \<subseteq> vis st \<union> set sa" using v fa sa by auto
    moreover have "set ma \<subseteq> set ta \<union> set sa \<union> {a. length (heap st) \<le> a}"
      using a ta sa by auto
    ultimately show ?thesis
      using frame_length [OF f]
      by (intro exI [of _ "length (heap st')"] exI [of _ st1] exI [of _ ma]) simp
  qed
qed

lemma mergeKey_refines:
  assumes O: "objectsRefine n opts" and P: "plainOptions opts"
    and r: "lookup (heap st) N = Some (PlainObj rp)" "unfoldsProps (heap st) rp rq ras"
           "N \<notin> set ras"
    and s: "lookup (heap st) S = Some (PlainObj sp)"
    and k: "unfolds (heap st) (propOf sp k) (sprop sq k) ak" "N \<notin> set ak" "distinct ak"
           "set ak \<inter> vis st = {}" "size (sprop sq k) < n"
  shows "\<exists>st' rp' ras'.
           mergeKey n opts st (Ref N) (Ref S) k d = Some (Inr st') \<and>
           lookup (heap st') N = Some (PlainObj rp') \<and>
           unfoldsProps (heap st') rp' (pureKey opts d sq k rq) ras' \<and>
           set ras' \<subseteq> set ras \<union> set ak \<union> {a. length (heap st) \<le> a} \<and>
           frameExcept N st st' \<and> vis st' \<subseteq> vis st \<union> set ak \<and>
           length (heap st) \<le> length (heap st')"
proof -
  let ?tv = "propOf rp k" and ?sv = "propOf sp k"
  let ?T = "sprop rq k" and ?U = "sprop sq k"
  have gt: "getProp (heap st) (Ref N) k = ?tv" using r(1) by (rule getProp_propOf)
  have gs: "getProp (heap st) (Ref S) k = ?sv" using s(1) by (rule getProp_propOf)
  from unfoldsProps_lookup [OF r(2), of k] obtain atv where
    ut: "unfolds (heap st) ?tv ?T atv" and at: "set atv \<subseteq> set ras"
    by blast
  note kt = unfolds_kind [OF ut] and ks = unfolds_kind [OF k(1)]
  from r(1) have N: "N < length (heap st)" by (rule lookup_valid)
  have cd: "customDecision opts k (getProp (heap st) (Ref N) k) (getProp (heap st) (Ref S) k) = None"
    using P by (simp add: customDecision_def plainOptions_def)
  have finish: "\<exists>st' rp' ras'.
           mergeKey n opts st (Ref N) (Ref S) k d = Some (Inr st') \<and>
           lookup (heap st') N = Some (PlainObj rp') \<and>
           unfoldsProps (heap st') rp' (pureKey opts d sq k rq) ras' \<and>
           set ras' \<subseteq> set ras \<union> set ak \<union> {a. length (heap st) \<le> a} \<and>
           frameExcept N st st' \<and> vis st' \<subseteq> vis st \<union> set ak \<and>
           length (heap st) \<le> length (heap st')"
    if run: "mergeKey n opts st (Ref N) (Ref S) k d = Some (Inr (writeProp st1 (Ref N) k v))"
      and pure: "pureKey opts d sq k rq = assign rq k t"
      and f: "frame st st1" and u: "unfolds (heap st1) v t av"
      and av: "set av \<subseteq> set ras \<union> set ak \<union> {a. length (heap st) \<le> a}"
      and vs: "vis st1 \<subseteq> vis st \<union> set ak"
    for st1 v t av
  proof -
    from av r(3) k(2) N have "N \<notin> set av" by auto
    from write_refines [OF f r u this, of k] obtain rp' ras' where
      w: "lookup (heap (writeProp st1 (Ref N) k v)) N = Some (PlainObj rp')"
         "unfoldsProps (heap (writeProp st1 (Ref N) k v)) rp' (assign rq k t) ras'"
         "set ras' \<subseteq> set ras \<union> set av"
         "frameExcept N st (writeProp st1 (Ref N) k v)"
         "vis (writeProp st1 (Ref N) k v) = vis st1"
         "length (heap (writeProp st1 (Ref N) k v)) = length (heap st1)"
      by blast
    from w(3) av have "set ras' \<subseteq> set ras \<union> set ak \<union> {a. length (heap st) \<le> a}"
      by blast
    moreover from w(6) frame_length [OF f]
    have "length (heap st) \<le> length (heap (writeProp st1 (Ref N) k v))" by simp
    ultimately show ?thesis
      using run pure w(1,2,4,5) vs by auto
  qed
  show ?thesis
  proof (cases "\<exists>f g. ?T = SFun f \<and> ?U = SFun g")
    case True
    then obtain f g where T: "?T = SFun f" and U: "?U = SFun g" by blast
    from kt(3) ks(3) T U have af: "asFunction (heap st) ?tv = Some f"
      "asFunction (heap st) ?sv = Some g"
      by simp_all
    note mk = mergeKey_functions [OF cd, unfolded gt gs, OF af]
    note pk = pureKey_functions [OF T U, of opts d]
    show ?thesis
    proof (cases "functionMerge opts = Compose")
      case True
      obtain v st1 where al: "alloc st (Callable (Composed f g)) = (v, st1)"
        by (cases "alloc st (Callable (Composed f g))")
      note fa = frame_alloc [OF al]
      have "unfolds (heap st1) v (SFun (Composed f g)) [length (heap st)]"
        using fa by (auto intro: unfolds_unfoldsProps_unfoldsElems.callable)
      moreover have "mergeKey n opts st (Ref N) (Ref S) k d =
          Some (Inr (writeProp st1 (Ref N) k v))"
        using mk True al by (simp add: mergeFunctions_def)
      moreover have "pureKey opts d sq k rq = assign rq k (SFun (Composed f g))"
        using pk True by (simp add: pureFunctions_def)
      ultimately show ?thesis
        using fa by (intro finish [of st1 v "SFun (Composed f g)" "[length (heap st)]"]) auto
    next
      case False
      have "mergeKey n opts st (Ref N) (Ref S) k d =
          Some (Inr (writeProp st (Ref N) k ?sv))"
        using mk False by (simp add: mergeFunctions_def)
      moreover have "pureKey opts d sq k rq = assign rq k ?U"
        using pk False U by (simp add: pureFunctions_def)
      ultimately show ?thesis
        using k(1) by (intro finish [of st ?sv ?U ak]) auto
    qed
  next
    case nf: False
    then have nf': "\<not> (\<exists>f g. asFunction (heap st) (getProp (heap st) (Ref N) k) = Some f \<and>
             asFunction (heap st) (getProp (heap st) (Ref S) k) = Some g)"
      unfolding gt gs kt(3) ks(3) by (auto split: shape.splits)
    note mk = mergeKey_others [OF cd nf', unfolded gt gs kt(1,2) ks(1,2)]
    note pk = pureKey_others [OF nf, of opts d]
    show ?thesis
    proof (cases "isSObj ?T \<and> isSObj ?U")
      case True
      then have "mergeable ?T ?U"
        by (cases ?U) (auto simp: mergeable_def)
      with O ut k have "\<exists>r st' ra.
           mergeObjects n opts st ?tv [?sv] (Suc d) = Some (Inr (r, st')) \<and>
           unfolds (heap st') r (pureObjects opts (Suc d) ?T ?U) ra \<and>
           set ra \<subseteq> set atv \<union> set ak \<union> {a. length (heap st) \<le> a} \<and>
           frame st st' \<and> vis st' \<subseteq> vis st \<union> set ak"
        unfolding objectsRefine_def by blast
      then obtain v st1 av where
        m: "mergeObjects n opts st ?tv [?sv] (Suc d) = Some (Inr (v, st1))"
        and u: "unfolds (heap st1) v (pureObjects opts (Suc d) ?T ?U) av"
        and a: "set av \<subseteq> set atv \<union> set ak \<union> {a. length (heap st) \<le> a}"
        and f: "frame st st1" and vs: "vis st1 \<subseteq> vis st \<union> set ak"
        by blast
      have "mergeKey n opts st (Ref N) (Ref S) k d = Some (Inr (writeProp st1 (Ref N) k v))"
        using mk True m by simp
      moreover have "pureKey opts d sq k rq =
          assign rq k (pureObjects opts (Suc d) ?T ?U)"
        using pk True by simp
      moreover from a at have "set av \<subseteq> set ras \<union> set ak \<union> {a. length (heap st) \<le> a}"
        by blast
      ultimately show ?thesis
        using f u vs by (intro finish [of st1 v _ av]) auto
    next
      case no: False
      show ?thesis
      proof (cases "isSArr ?T \<and> isSArr ?U")
        case True
        from k(4) have vt: "set (tl ak) \<inter> vis st = {}"
          by (cases ak) auto
        from k(5) have zs: "size ?U \<le> n" by simp
        from True have iT: "isSArr ?T" and iU: "isSArr ?U" by simp_all
        from arrays_refines [OF O P ut iT k(1) iU k(3) vt zs] obtain A st1 as' where
          m: "mergeArrays n opts st ?tv ?sv = Some (Inr (Ref A, st1))"
          and A: "length (heap st) \<le> A"
          and u: "unfolds (heap st1) (Ref A) (pureArrays opts ?T ?U) (A # as')"
          and a: "set as' \<subseteq> set atv \<union> set ak \<union> {a. length (heap st) \<le> a}"
          and f: "frame st st1" and vs: "vis st1 \<subseteq> vis st \<union> set ak"
          by blast
        have "mergeKey n opts st (Ref N) (Ref S) k d =
            Some (Inr (writeProp st1 (Ref N) k (Ref A)))"
          using mk no True m by simp
        moreover have "pureKey opts d sq k rq = assign rq k (pureArrays opts ?T ?U)"
          using pk no True by simp
        moreover have "set (A # as') \<subseteq> set ras \<union> set ak \<union> {a. length (heap st) \<le> a}"
          using a at A by auto
        ultimately show ?thesis
          using f u vs by (intro finish [of st1 "Ref A" _ "A # as'"]) auto
      next
        case na: False
        show ?thesis
        proof (cases "?U = SScalar Undefined")
          case True
          with ks(4) have "?sv = Undefined" by simp
          with mk no na have "mergeKey n opts st (Ref N) (Ref S) k d = Some (Inr st)"
            by simp
          moreover from pk no na True have "pureKey opts d sq k rq = rq"
            by simp
          ultimately show ?thesis
            using r by (auto simp: frameExcept_def)
        next
          case False
          with ks(4) have "?sv \<noteq> Undefined" by simp
          with mk no na have "mergeKey n opts st (Ref N) (Ref S) k d =
              Some (Inr (writeProp st (Ref N) k ?sv))"
            by simp
          moreover from pk no na False have "pureKey opts d sq k rq = assign rq k ?U"
            by simp
          ultimately show ?thesis
            using k(1) by (intro finish [of st ?sv ?U ak]) auto
        qed
      qed
    qed
  qed
qed

lemma frameExcept_source:
  assumes f: "frameExcept N st st1"
    and s: "lookup (heap st) S = Some (PlainObj sp)" "unfoldsProps (heap st) sp sq sas"
           "N \<notin> set sas" "N \<noteq> S"
  shows "lookup (heap st1) S = Some (PlainObj sp)" and "unfoldsProps (heap st1) sp sq sas"
    and "unfolds (heap st) v t a \<Longrightarrow> N \<notin> set a \<Longrightarrow> unfolds (heap st1) v t a"
proof -
  from s(1) have "S < length (heap st)" by (rule lookup_valid)
  with f s(1,4) show "lookup (heap st1) S = Some (PlainObj sp)"
    by (simp add: frameExcept_def)
  have "sameAt sas (heap st) (heap st1)"
    using f s(3) unfolds_valid(2) [OF s(2)]
    by (auto simp: sameAt_def frameExcept_def)
  from unfolds_sameAt(2) [OF s(2) this] show "unfoldsProps (heap st1) sp sq sas" .
  show "unfolds (heap st1) v t a" if u: "unfolds (heap st) v t a" and n: "N \<notin> set a"
  proof -
    have "sameAt a (heap st) (heap st1)"
      using f n unfolds_valid(1) [OF u]
      by (auto simp: sameAt_def frameExcept_def)
    from unfolds_sameAt(1) [OF u this] show ?thesis .
  qed
qed

lemma frameExcept_trans:
  "frameExcept N st1 st2 \<Longrightarrow> length (heap st1) \<le> length (heap st2) \<Longrightarrow>
   frameExcept N st2 st3 \<Longrightarrow> frameExcept N st1 st3"
  by (simp add: frameExcept_def)

lemma size_sprop: "size (sprop sq k) < size (SObj sq)"
proof (cases "map_of sq k")
  case None
  then show ?thesis by (simp add: sprop_def)
next
  case (Some t)
  then have "(k, t) \<in> set sq" by (rule map_of_SomeD)
  then have "size_prod (\<lambda>_. 0) size (k, t) \<le> size_list (size_prod (\<lambda>_. 0) size) sq"
    by (simp add: size_list_estimation')
  with Some show ?thesis by (simp add: sprop_def)
qed

lemma mergeKeys_refines:
  assumes O: "objectsRefine n opts" and P: "plainOptions opts"
    and sz: "size (SObj sq) \<le> n" and d: "distinct sas" and NS: "N \<noteq> S" "N \<notin> set sas"
  shows "distinct ks \<Longrightarrow>
     lookup (heap st) S = Some (PlainObj sp) \<Longrightarrow> unfoldsProps (heap st) sp sq sas \<Longrightarrow>
     lookup (heap st) N = Some (PlainObj rp) \<Longrightarrow> unfoldsProps (heap st) rp rq ras \<Longrightarrow>
     N \<notin> set ras \<Longrightarrow>
     (\<forall>k \<in> set ks. \<forall>a. unfolds (heap st) (propOf sp k) (sprop sq k) a \<longrightarrow>
        set a \<inter> vis st = {}) \<Longrightarrow>
     \<exists>st' rp' ras'.
       mergeKeys n opts st (Ref N) (Ref S) ks dp = Some (Inr st') \<and>
       lookup (heap st') N = Some (PlainObj rp') \<and>
       unfoldsProps (heap st') rp' (fold (pureKey opts dp sq) ks rq) ras' \<and>
       set ras' \<subseteq> set ras \<union> set sas \<union> {a. length (heap st) \<le> a} \<and>
       frameExcept N st st' \<and> vis st' \<subseteq> vis st \<union> set sas \<and>
       length (heap st) \<le> length (heap st')"
proof (induction ks arbitrary: st rp rq ras)
  case Nil
  then show ?case by (auto simp: frameExcept_def)
next
  case (Cons k ks)
  note s = Cons.prems(2,3) and r = Cons.prems(4,5,6)
  from unfoldsProps_lookup [OF s(2), of k] d obtain ak where
    uk: "unfolds (heap st) (propOf sp k) (sprop sq k) ak" and ak: "set ak \<subseteq> set sas"
    and dk: "distinct ak"
    by blast
  from ak NS(2) have nk: "N \<notin> set ak" by auto
  from Cons.prems(7) uk have vk: "set ak \<inter> vis st = {}" by simp
  from size_sprop [of sq k] sz have zk: "size (sprop sq k) < n" by simp
  from mergeKey_refines [OF O P r s(1) uk nk dk vk zk, of dp] obtain st1 rp1 ras1 where
    m: "mergeKey n opts st (Ref N) (Ref S) k dp = Some (Inr st1)"
    and r1: "lookup (heap st1) N = Some (PlainObj rp1)"
            "unfoldsProps (heap st1) rp1 (pureKey opts dp sq k rq) ras1"
    and a1: "set ras1 \<subseteq> set ras \<union> set ak \<union> {a. length (heap st) \<le> a}"
    and f1: "frameExcept N st st1" and v1: "vis st1 \<subseteq> vis st \<union> set ak"
    and l1: "length (heap st) \<le> length (heap st1)"
    by blast
  from r(1) have N: "N < length (heap st)" by (rule lookup_valid)
  from a1 r(3) nk N have n1: "N \<notin> set ras1" by auto
  note s1 = frameExcept_source [OF f1 s NS(2,1)]
  have rest: "\<forall>k' \<in> set ks. \<forall>a. unfolds (heap st1) (propOf sp k') (sprop sq k') a \<longrightarrow>
        set a \<inter> vis st1 = {}"
  proof (intro ballI allI impI)
    fix k' a
    assume k': "k' \<in> set ks" and u1: "unfolds (heap st1) (propOf sp k') (sprop sq k') a"
    from unfoldsProps_lookup [OF s(2), of k'] obtain a' where
      u: "unfolds (heap st) (propOf sp k') (sprop sq k') a'" and sub: "set a' \<subseteq> set sas"
      by blast
    from sub NS(2) have "N \<notin> set a'" by auto
    from s1(3) [OF u this] u1 unfolds_unique(1) have e: "a = a'" by blast
    from k' Cons.prems(1) have "k \<noteq> k'" by auto
    from unfoldsProps_disjoint [OF s(2) d this uk u] have "set ak \<inter> set a' = {}" .
    moreover from Cons.prems(7) k' u have "set a' \<inter> vis st = {}" by simp
    ultimately show "set a \<inter> vis st1 = {}"
      using v1 e by blast
  qed
  from Cons.prems(1) have dks: "distinct ks" by simp
  from Cons.IH [OF dks s1(1,2) r1 n1 rest] obtain st' rp' ras' where
    m': "mergeKeys n opts st1 (Ref N) (Ref S) ks dp = Some (Inr st')"
    and r': "lookup (heap st') N = Some (PlainObj rp')"
            "unfoldsProps (heap st') rp' (fold (pureKey opts dp sq) ks (pureKey opts dp sq k rq)) ras'"
    and a': "set ras' \<subseteq> set ras1 \<union> set sas \<union> {a. length (heap st1) \<le> a}"
    and f': "frameExcept N st1 st'" and v': "vis st' \<subseteq> vis st1 \<union> set sas"
    and l': "length (heap st1) \<le> length (heap st')"
    by blast
  have "mergeKeys n opts st (Ref N) (Ref S) (k # ks) dp = Some (Inr st')"
    using m m' by simp
  moreover have "set ras' \<subseteq> set ras \<union> set sas \<union> {a. length (heap st) \<le> a}"
  proof
    fix x
    assume "x \<in> set ras'"
    with a' have "x \<in> set ras1 \<or> x \<in> set sas \<or> length (heap st1) \<le> x" by auto
    with a1 ak l1 show "x \<in> set ras \<union> set sas \<union> {a. length (heap st) \<le> a}"
      by (auto dest: subsetD)
  qed
  moreover have "frameExcept N st st'"
    using f1 l1 f' by (rule frameExcept_trans)
  moreover have "vis st' \<subseteq> vis st \<union> set sas"
    using v' v1 ak by blast
  moreover have "length (heap st) \<le> length (heap st')"
    using l1 l' by simp
  ultimately show ?case
    using r' by auto
qed

section \<open>One source refines its tree\<close>

lemma uniq_fresh: "x \<in> set (uniq seen xs) \<Longrightarrow> x \<notin> set seen"
proof (induction xs arbitrary: seen)
  case Nil
  then show ?case by simp
next
  case (Cons a xs)
  show ?case
  proof (cases "a \<in> set seen")
    case True
    with Cons show ?thesis by simp
  next
    case False
    with Cons.prems have "x = a \<or> x \<in> set (uniq (a # seen) xs)" by simp
    then show ?thesis
    proof
      assume "x = a"
      with False show ?thesis by simp
    next
      assume "x \<in> set (uniq (a # seen) xs)"
      from Cons.IH [OF this] show ?thesis by simp
    qed
  qed
qed

lemma uniq_distinct: "distinct (uniq seen xs)"
  by (induction xs arbitrary: seen) (auto dest: uniq_fresh)

lemma distinct_keyOrder: "distinct (keyOrder a b)"
  by (simp add: keyOrder_def uniq_distinct)

lemma leaf_refines:
  assumes P: "plainOptions opts"
    and t: "unfolds (heap st) target tt ta" and s: "unfolds (heap st) source ts sa"
    and leaf: "\<not> isSObj tt" "\<not> isSArr tt"
  shows "\<exists>r st' ra. leafMerge opts st target [source] = (r, st') \<and>
           unfolds (heap st') r (pureLeaf opts tt ts) ra \<and>
           set ra \<subseteq> set ta \<union> set sa \<union> {a. length (heap st) \<le> a} \<and>
           frame st st' \<and> vis st' \<subseteq> vis st \<union> set sa"
proof -
  note kt = unfolds_kind [OF t] and ks = unfolds_kind [OF s]
  have cd: "customDecision opts (KStr []) target source = None"
    using P by (simp add: customDecision_def plainOptions_def)
  show ?thesis
  proof (cases "ts = SScalar Undefined")
    case True
    with ks(4) have "source = Undefined" by simp
    with True t show ?thesis by auto
  next
    case False
    with ks(4) have nu: "source \<noteq> Undefined" by simp
    show ?thesis
    proof (cases "\<exists>f g. tt = SFun f \<and> ts = SFun g")
      case True
      then obtain f g where T: "tt = SFun f" and U: "ts = SFun g" by blast
      from kt(3) ks(3) T U have af: "asFunction (heap st) target = Some f"
        "asFunction (heap st) source = Some g"
        by simp_all
      show ?thesis
      proof (cases "functionMerge opts = Compose")
        case True
        obtain v st1 where al: "alloc st (Callable (Composed f g)) = (v, st1)"
          by (cases "alloc st (Callable (Composed f g))")
        note fa = frame_alloc [OF al]
        have "unfolds (heap st1) v (SFun (Composed f g)) [length (heap st)]"
          using fa by (auto intro: unfolds_unfoldsProps_unfoldsElems.callable)
        moreover have "leafMerge opts st target [source] = (v, st1)"
          using nu cd af True al by (simp add: mergeFunctions_def)
        moreover have "pureLeaf opts tt ts = SFun (Composed f g)"
          using T U True by (simp add: pureFunctions_def)
        ultimately show ?thesis using fa by auto
      next
        case False
        have "leafMerge opts st target [source] = (source, st)"
          using nu cd af False by (simp add: mergeFunctions_def)
        moreover have "pureLeaf opts tt ts = ts"
          using T U False by (simp add: pureFunctions_def)
        ultimately show ?thesis using s by auto
      qed
    next
      case nf: False
      then have "\<not> (\<exists>f g. asFunction (heap st) target = Some f \<and>
          asFunction (heap st) source = Some g)"
        unfolding kt(3) ks(3) by (auto split: shape.splits)
      then have "leafMerge opts st target [source] = (source, st)"
        using nu cd by (auto split: option.splits)
      moreover have "pureLeaf opts tt ts = ts"
        using nf False by (cases "(opts, tt, ts)" rule: pureLeaf.cases) auto
      ultimately show ?thesis using s by auto
    qed
  qed
qed

lemma clone_refines:
  assumes P: "plainOptions opts"
    and t: "unfolds (heap st) target tt ta" and comp: "isSObj tt \<or> isSArr tt"
  shows "\<exists>st1 tas. cloneTarget opts st target = (Ref (length (heap st)), st1) \<and>
           frame st st1 \<and> vis st1 = vis st \<and> visited st1 = visited st \<and>
           length (heap st1) = Suc (length (heap st)) \<and>
           unfolds (heap st1) (Ref (length (heap st))) tt (length (heap st) # tas) \<and>
           set tas \<subseteq> set ta \<and>
           (\<forall>tq. tt = SObj tq \<longrightarrow>
              (\<exists>tp. lookup (heap st1) (length (heap st)) = Some (PlainObj tp) \<and>
                    unfoldsProps (heap st1) tp tq tas))"
proof -
  from comp unfolds_scalar_shape [OF t] obtain T where T: "target = Ref T"
    by (cases target) auto
  note sh = unfolds_object_shape [OF t [unfolded T]]
  from P have c: "clone opts" by (simp add: plainOptions_def)
  show ?thesis
  proof (cases "isSObj tt")
    case True
    with sh obtain tp tq tas where
      l: "lookup (heap st) T = Some (PlainObj tp)" and u: "unfoldsProps (heap st) tp tq tas"
      and q: "tt = SObj tq" and a: "ta = T # tas"
      by auto
    obtain r st1 where al: "alloc st (PlainObj tp) = (r, st1)"
      by (cases "alloc st (PlainObj tp)")
    note fa = frame_alloc [OF al]
    from fa have f: "frame st st1" by simp
    note u1 = frame_unfolds(2) [OF f u]
    have "cloneTarget opts st target = (Ref (length (heap st)), st1)"
      using c T l al fa by (simp add: cloneTarget_def)
    moreover have "unfolds (heap st1) (Ref (length (heap st))) tt (length (heap st) # tas)"
      unfolding q using fa u1 by (intro unfolds_unfoldsProps_unfoldsElems.plain) auto
    moreover have "visited st1 = visited st"
      using al by (auto simp: alloc_def)
    ultimately show ?thesis
      using fa u1 q a by auto
  next
    case False
    with comp sh obtain xs ts tas where
      l: "lookup (heap st) T = Some (Arr xs)" and u: "unfoldsElems (heap st) xs ts tas"
      and q: "tt = SArr ts" and a: "ta = T # tas"
      by auto
    obtain r st1 where al: "alloc st (Arr xs) = (r, st1)"
      by (cases "alloc st (Arr xs)")
    note fa = frame_alloc [OF al]
    from fa have f: "frame st st1" by simp
    note u1 = frame_unfolds(3) [OF f u]
    have "cloneTarget opts st target = (Ref (length (heap st)), st1)"
      using c T l al fa by (simp add: cloneTarget_def)
    moreover have "unfolds (heap st1) (Ref (length (heap st))) tt (length (heap st) # tas)"
      unfolding q using fa u1 by (intro unfolds_unfoldsProps_unfoldsElems.array) auto
    moreover have "visited st1 = visited st"
      using al by (auto simp: alloc_def)
    ultimately show ?thesis
      using fa q a by auto
  qed
qed

lemma nullish_iff: "nullish t \<longleftrightarrow> t = SScalar Null \<or> t = SScalar Undefined"
  by (cases t rule: nullish.cases) auto

lemma pureObjects_composite:
  "\<not> maxDepth opts \<le> int d \<Longrightarrow> isSObj tt \<or> isSArr tt \<Longrightarrow>
   pureObjects opts d tt ts = pureSource opts d tt ts"
  by (subst pureObjects_unfold) (auto simp: pureSource_def nullish_iff)

lemma source_refines:
  assumes O: "objectsRefine n opts" and P: "plainOptions opts"
    and N: "\<forall>a \<in> set tas \<union> set sa. a < N" "N < length (heap st1)"
    and r: "unfolds (heap st1) (Ref N) tt (N # tas)" "isSObj tt \<or> isSArr tt"
    and s: "unfolds (heap st1) source ts sa" "distinct sa" "set sa \<inter> vis st1 = {}"
           "size ts \<le> n" "mergeable tt ts"
  shows "\<exists>r' st' ra.
           mergeSource n opts st1 (Ref N) source d = Some (Inr (r', st')) \<and>
           unfolds (heap st') r' (pureSource opts d tt ts) ra \<and>
           set ra \<subseteq> {N} \<union> set tas \<union> set sa \<union> {a. length (heap st1) \<le> a} \<and>
           frameExcept N st1 st' \<and> vis st' \<subseteq> vis st1 \<union> set sa \<and>
           length (heap st1) \<le> length (heap st')"
proof (cases "nullish ts")
  case True
  with unfolds_kind(4,5) [OF s(1)] have "source = Null \<or> source = Undefined"
    by (auto simp: nullish_iff)
  then have "mergeSource n opts st1 (Ref N) source d = Some (Inr (Ref N, st1))"
    by (auto simp: mergeSource.simps)
  with True r(1) show ?thesis
    by (auto simp: pureSource_def frameExcept_def)
next
  case nn: False
  with s(5) r(2) have ns: "\<not> isSScalar ts" by (auto simp: mergeable_def)
  with unfolds_scalar_shape [OF s(1)] obtain S where S: "source = Ref S"
    by (cases source) auto
  from unfolds_object_shape [OF s(1) [unfolded S]] obtain sas where sa: "sa = S # sas"
    by auto
  from sa s(3) have nv: "\<not> visitedHas st1 source" by (auto simp: S vis_def)
  define st2 where "st2 = st1\<lparr>visited := (S, Ref N) # visited st1\<rparr>"
  have h2: "heap st2 = heap st1" and v2: "vis st2 = insert S (vis st1)"
    by (simp_all add: st2_def vis_def)
  have vs: "visitedSet st1 source (Ref N) = Inr st2"
    by (simp add: S st2_def)
  note kr = unfolds_kind [OF r(1)] and ks = unfolds_kind [OF s(1)]
  have run: "mergeSource n opts st1 (Ref N) source d =
      (if isSArr tt \<and> isSArr ts then mergeArrays n opts st2 (Ref N) source
       else if isSObj tt \<and> isSObj ts then
         andThen (mergeKeys n opts st2 (Ref N) source (keysOf (heap st2) (Ref N) source) d)
           (\<lambda>st3. Some (Inr (Ref N, st3)))
       else Some (Inr (source, st2)))"
    using nv vs kr(1,2) ks(1,2) S by (simp add: mergeSource.simps h2)
  have f2: "frameExcept N st1 st2"
    by (simp add: frameExcept_def h2)
  show ?thesis
  proof (cases "isSArr tt \<and> isSArr ts")
    case True
    from s(1) have "unfolds (heap st2) source ts sa" by (simp add: h2)
    then have us2: "unfolds (heap st2) source ts sa" .
    from r(1) have ur2: "unfolds (heap st2) (Ref N) tt (N # tas)" by (simp add: h2)
    from True have iT: "isSArr tt" and iU: "isSArr ts" by simp_all
    from s(2,3) sa have vt: "set (tl sa) \<inter> vis st2 = {}"
      by (auto simp: v2)
    from arrays_refines [OF O P ur2 iT us2 iU s(2) vt s(4)] obtain A st3 as' where
      m: "mergeArrays n opts st2 (Ref N) source = Some (Inr (Ref A, st3))"
      and A: "length (heap st2) \<le> A"
      and u: "unfolds (heap st3) (Ref A) (pureArrays opts tt ts) (A # as')"
      and a: "set as' \<subseteq> set (N # tas) \<union> set sa \<union> {a. length (heap st2) \<le> a}"
      and f: "frame st2 st3" and v3: "vis st3 \<subseteq> vis st2 \<union> set sa"
      by blast
    have "frameExcept N st1 st3"
      using f by (simp add: frameExcept_def frame_def h2)
    moreover have "length (heap st1) \<le> length (heap st3)"
      using frame_length [OF f] by (simp add: h2)
    moreover have "vis st3 \<subseteq> vis st1 \<union> set sa"
      using v3 v2 sa by auto
    moreover have "mergeSource n opts st1 (Ref N) source d = Some (Inr (Ref A, st3))"
      using run True m by simp
    moreover have "pureSource opts d tt ts = pureArrays opts tt ts"
      using nn True by (simp add: pureSource_def)
    moreover have "set (A # as') \<subseteq> {N} \<union> set tas \<union> set sa \<union> {a. length (heap st1) \<le> a}"
      using a A by (auto simp: h2)
    ultimately show ?thesis
      using u by (intro exI [of _ "Ref A"] exI [of _ st3] exI [of _ "A # as'"]) simp
  next
    case na: False
    show ?thesis
    proof (cases "isSObj tt \<and> isSObj ts")
      case True
      from True unfolds_object_shape [OF r(1)] obtain tp tq where
        lt: "lookup (heap st1) N = Some (PlainObj tp)" and ut: "unfoldsProps (heap st1) tp tq tas"
        and tt: "tt = SObj tq"
        by auto
      from True unfolds_object_shape [OF s(1) [unfolded S]] sa obtain sp sq where
        ls: "lookup (heap st1) S = Some (PlainObj sp)" and us: "unfoldsProps (heap st1) sp sq sas"
        and ts: "ts = SObj sq"
        by auto
      from sa s(2) have ds: "distinct sas" and Ss: "S \<notin> set sas" by auto
      from N(1) sa have NS: "N \<noteq> S" "N \<notin> set sas" and Nt: "N \<notin> set tas" by auto
      from s(4) ts have sz: "size (SObj sq) \<le> n" by simp
      have keys: "keysOf (heap st2) (Ref N) source =
          keyOrder (map fst (sprops tt)) (map fst (sprops ts))"
        using lt ls unfoldsProps_keys [OF ut] unfoldsProps_keys [OF us]
        by (simp add: keysOf_def h2 S tt ts)
      have unv: "\<forall>k \<in> set (keyOrder (map fst (sprops tt)) (map fst (sprops ts))).
          \<forall>a. unfolds (heap st2) (propOf sp k) (sprop sq k) a \<longrightarrow> set a \<inter> vis st2 = {}"
      proof (intro ballI allI impI)
        fix k a
        assume "unfolds (heap st2) (propOf sp k) (sprop sq k) a"
        then have ua: "unfolds (heap st1) (propOf sp k) (sprop sq k) a"
          by (simp only: h2)
        from unfoldsProps_lookup [OF us, of k] obtain a' where
          ua': "unfolds (heap st1) (propOf sp k) (sprop sq k) a'" and sub: "set a' \<subseteq> set sas"
          by blast
        from unfolds_unique(1) [OF ua ua'] sub have "set a \<subseteq> set sas"
          by simp
        with s(3) sa Ss show "set a \<inter> vis st2 = {}"
          unfolding v2 by auto
      qed
      from mergeKeys_refines [OF O P sz ds NS distinct_keyOrder, of st2 sp tp tq tas
          "map fst (sprops tt)" "map fst (sprops ts)" d]
        ls us lt ut Nt unv
      obtain st' rp' ras' where
        m: "mergeKeys n opts st2 (Ref N) (Ref S)
              (keyOrder (map fst (sprops tt)) (map fst (sprops ts))) d = Some (Inr st')"
        and r': "lookup (heap st') N = Some (PlainObj rp')"
          "unfoldsProps (heap st') rp'
             (fold (pureKey opts d sq) (keyOrder (map fst (sprops tt)) (map fst (sprops ts))) tq)
             ras'"
        and a': "set ras' \<subseteq> set tas \<union> set sas \<union> {a. length (heap st2) \<le> a}"
        and f': "frameExcept N st2 st'" and v': "vis st' \<subseteq> vis st2 \<union> set sas"
        and l': "length (heap st2) \<le> length (heap st')"
        by (auto simp: h2)
      have "mergeSource n opts st1 (Ref N) source d = Some (Inr (Ref N, st'))"
        using run na True m keys by (simp add: S)
      moreover have "pureSource opts d tt ts =
          SObj (fold (pureKey opts d sq) (keyOrder (map fst (sprops tt)) (map fst (sprops ts))) tq)"
        using nn na True by (simp add: pureSource_def tt ts)
      moreover have "unfolds (heap st') (Ref N)
          (SObj (fold (pureKey opts d sq) (keyOrder (map fst (sprops tt)) (map fst (sprops ts))) tq))
          (N # ras')"
        using r' by (rule unfolds_unfoldsProps_unfoldsElems.plain)
      moreover have "set (N # ras') \<subseteq> {N} \<union> set tas \<union> set sa \<union> {a. length (heap st1) \<le> a}"
        using a' sa by (auto simp: h2)
      moreover have "frameExcept N st1 st'"
        using f' by (simp add: frameExcept_def h2)
      moreover have "vis st' \<subseteq> vis st1 \<union> set sa"
        using v' v2 sa by auto
      moreover have "length (heap st1) \<le> length (heap st')"
        using l' by (simp add: h2)
      ultimately show ?thesis
        by (intro exI [of _ "Ref N"] exI [of _ st'] exI [of _ "N # ras'"]) simp
    next
      case False
      with run na have "mergeSource n opts st1 (Ref N) source d = Some (Inr (source, st2))"
        by simp
      moreover have "pureSource opts d tt ts = ts"
        using nn na False by (auto simp: pureSource_def)
      moreover have "unfolds (heap st2) source ts sa"
        using s(1) by (simp add: h2)
      moreover have "vis st2 \<subseteq> vis st1 \<union> set sa"
        using v2 sa by auto
      ultimately show ?thesis
        using f2 by (intro exI [of _ source] exI [of _ st2] exI [of _ sa]) (auto simp: h2)
    qed
  qed
qed

section \<open>The engine refines the merge on trees\<close>

lemma objectsRefine_Suc:
  assumes O: "objectsRefine n opts" and P: "plainOptions opts"
  shows "objectsRefine (Suc n) opts"
  unfolding objectsRefine_def
proof (intro allI impI)
  fix st target source d tt ta ts sa
  assume t: "unfolds (heap st) target tt ta" and s: "unfolds (heap st) source ts sa"
    and ds: "distinct sa" and dv: "set sa \<inter> vis st = {}" and sz: "size ts < Suc n"
    and mg: "mergeable tt ts"
  let ?goal = "\<exists>r st' ra.
       mergeObjects (Suc n) opts st target [source] d = Some (Inr (r, st')) \<and>
       unfolds (heap st') r (pureObjects opts d tt ts) ra \<and>
       set ra \<subseteq> set ta \<union> set sa \<union> {a. length (heap st) \<le> a} \<and>
       frame st st' \<and> vis st' \<subseteq> vis st \<union> set sa"
  note kt = unfolds_kind [OF t]
  show ?goal
  proof (cases "maxDepth opts \<le> int d")
    case True
    let ?st' = "st\<lparr>warnings := Suc (warnings st)\<rparr>"
    have "mergeObjects (Suc n) opts st target [source] d = Some (Inr (target, ?st'))"
      using True by simp
    moreover have "pureObjects opts d tt ts = tt"
      using True by (subst pureObjects_unfold) simp
    moreover have "unfolds (heap ?st') target tt ta"
      using t by simp
    moreover have "frame st ?st'" "vis ?st' = vis st"
      by (simp_all add: frame_def vis_def)
    ultimately show ?thesis
      by (intro exI [of _ target] exI [of _ ?st'] exI [of _ ta]) auto
  next
    case dp: False
    show ?thesis
    proof (cases "isSObj tt \<or> isSArr tt")
      case False
      then have leaf: "\<not> isSObj tt" "\<not> isSArr tt" by simp_all
      from leaf_refines [OF P t s leaf] obtain r st' ra where
        l: "leafMerge opts st target [source] = (r, st')"
        and u: "unfolds (heap st') r (pureLeaf opts tt ts) ra"
        and a: "set ra \<subseteq> set ta \<union> set sa \<union> {a. length (heap st) \<le> a}"
        and f: "frame st st'" and v: "vis st' \<subseteq> vis st \<union> set sa"
        by blast
      have "mergeObjects (Suc n) opts st target [source] d = Some (Inr (r, st'))"
        using dp leaf kt(1,2) l by simp
      moreover have "pureObjects opts d tt ts = pureLeaf opts tt ts"
        using dp leaf by (subst pureObjects_unfold) simp
      ultimately show ?thesis
        using u a f v by (intro exI [of _ r] exI [of _ st'] exI [of _ ra]) simp
    next
      case comp: True
      let ?N = "length (heap st)"
      from clone_refines [OF P t comp] obtain st1 tas where
        c: "cloneTarget opts st target = (Ref ?N, st1)"
        and f1: "frame st st1" and v1: "vis st1 = vis st"
        and l1: "length (heap st1) = Suc ?N"
        and u1: "unfolds (heap st1) (Ref ?N) tt (?N # tas)"
        and a1: "set tas \<subseteq> set ta"
        by blast
      have below: "\<forall>a \<in> set tas \<union> set sa. a < ?N"
        using a1 unfolds_valid(1) [OF t] unfolds_valid(1) [OF s] by auto
      have N1: "?N < length (heap st1)" using l1 by simp
      note s1 = frame_unfolds(1) [OF f1 s]
      from dv v1 have dv1: "set sa \<inter> vis st1 = {}" by simp
      from sz have sz1: "size ts \<le> n" by simp
      from source_refines [OF O P below N1 u1 comp s1 ds dv1 sz1 mg, of d]
      obtain r st' ra where
        m: "mergeSource n opts st1 (Ref ?N) source d = Some (Inr (r, st'))"
        and u: "unfolds (heap st') r (pureSource opts d tt ts) ra"
        and a: "set ra \<subseteq> {?N} \<union> set tas \<union> set sa \<union> {a. length (heap st1) \<le> a}"
        and f: "frameExcept ?N st1 st'" and v: "vis st' \<subseteq> vis st1 \<union> set sa"
        by blast
      have "mergeObjects (Suc n) opts st target [source] d = Some (Inr (r, st'))"
        using dp comp kt(1,2) c m by auto
      moreover have "pureObjects opts d tt ts = pureSource opts d tt ts"
        using dp comp by (rule pureObjects_composite)
      moreover have "set ra \<subseteq> set ta \<union> set sa \<union> {a. ?N \<le> a}"
        using a a1 l1 by auto
      moreover have "frame st st'"
        unfolding frame_def
      proof (intro allI impI)
        fix x
        assume x: "x < ?N"
        with f l1 have "lookup (heap st') x = lookup (heap st1) x"
          by (simp add: frameExcept_def)
        with f1 x show "lookup (heap st') x = lookup (heap st) x"
          by (simp add: frame_def)
      qed
      moreover have "vis st' \<subseteq> vis st \<union> set sa"
        using v v1 by simp
      ultimately show ?thesis
        using u by (intro exI [of _ r] exI [of _ st'] exI [of _ ra]) simp
    qed
  qed
qed

lemma objectsRefine_all:
  assumes "plainOptions opts"
  shows "objectsRefine n opts"
proof (induction n)
  case 0
  show ?case by (simp add: objectsRefine_def)
next
  case (Suc n)
  from this assms show ?case by (rule objectsRefine_Suc)
qed

section \<open>Merging the same source again, on trees\<close>

lemma map_of_assign: "map_of (assign qs k' x) k = (if k = k' then Some x else map_of qs k)"
  by (induction qs) auto

lemma assign_same: "map_of qs k = Some x \<Longrightarrow> assign qs k x = qs"
  by (induction qs) (auto split: if_splits)

lemma sprop_in: "map_of qs k = Some t \<Longrightarrow> sprop qs k = t \<and> t \<in> snd ` set qs"
  by (force simp: sprop_def dest: map_of_SomeD)

lemma sprop_cases:
  "(map_of qs k = None \<and> sprop qs k = SScalar Undefined) \<or>
   (map_of qs k = Some (sprop qs k) \<and> sprop qs k \<in> snd ` set qs)"
  by (cases "map_of qs k") (auto simp: sprop_def dest: map_of_SomeD intro: rev_image_eqI)

lemma callableFree_sprop: "callableFree (SObj qs) \<Longrightarrow> callableFree (sprop qs k)"
  using sprop_cases [of qs k] by auto

lemma isSObj_pureObjects:
  "isSObj tt \<Longrightarrow> isSObj ts \<Longrightarrow> isSObj (pureObjects opts d tt ts)"
  by (subst pureObjects_unfold) (cases ts; simp)

lemma pureKey_undefined: "sprop sq k = SScalar Undefined \<Longrightarrow> pureKey opts d sq k rq = rq"
  by (auto simp: pureKey_def Let_def split: shape.splits jsval.splits)

lemma pureKey_map_of_other:
  "k \<noteq> k' \<Longrightarrow> map_of (pureKey opts d sq k' rq) k = map_of rq k"
  by (auto simp: pureKey_def Let_def map_of_assign split: shape.splits jsval.splits)

lemma fold_map_of_other:
  "k \<notin> set ks \<Longrightarrow> map_of (fold (pureKey opts d sq) ks rq) k = map_of rq k"
  by (induction ks arbitrary: rq) (auto simp: pureKey_map_of_other)

lemma isSArr_pureArrays: "isSArr s \<Longrightarrow> isSArr (pureArrays opts t s)"
  by (simp add: pureArrays_def)

lemma pureElems_self:
  "\<forall>s \<in> set ss. settled opts s \<Longrightarrow> pureElems opts ss ss = ss"
  by (induction ss) (auto simp: settled_def)

lemma pureElems_idem:
  "\<forall>s \<in> set ss. settled opts s \<Longrightarrow>
   pureElems opts (pureElems opts ts ss) ss = pureElems opts ts ss"
proof (induction ts ss rule: list_induct2')
  case (4 t ts s ss)
  then have st: "settled opts s" and rest: "pureElems opts (pureElems opts ts ss) ss = pureElems opts ts ss"
    by simp_all
  from st have self: "pureObjects opts 0 s s = s"
    and idem: "pureObjects opts 0 (pureObjects opts 0 t s) s = pureObjects opts 0 t s"
    by (simp_all add: settled_def)
  show ?case
  proof (cases "isSObj t \<and> isSObj s")
    case True
    then have "isSObj (pureObjects opts 0 t s)" by (simp add: isSObj_pureObjects)
    with True idem rest show ?thesis by simp
  next
    case False
    with self rest show ?thesis by auto
  qed
next
  case (3 s ss)
  then have "pureElems opts (s # ss) (s # ss) = s # ss"
    by (intro pureElems_self) simp
  then show ?case by simp
qed simp_all

lemma pureKey_keyValue:
  "pureKey opts d sq k rq =
     (case keyValue opts d (sprop rq k) (sprop sq k) of
        None \<Rightarrow> rq | Some x \<Rightarrow> assign rq k x)"
  by (auto simp: pureKey_def keyValue_def Let_def split: shape.splits jsval.splits)

lemma keyValue_not_fun:
  "\<forall>f. sv \<noteq> SFun f \<Longrightarrow>
   keyValue opts d tv sv =
     (if isSObj tv \<and> isSObj sv then Some (pureObjects opts (Suc d) tv sv)
      else if isSArr tv \<and> isSArr sv then Some (pureArrays opts tv sv)
      else if sv \<noteq> SScalar Undefined then Some sv
      else None)"
  by (auto simp: keyValue_def split: shape.splits jsval.splits)

lemma stable_noop:
  assumes "stable opts d (sprop rq k) (sprop sq k)" and "\<forall>f. sprop sq k \<noteq> SFun f"
  shows "pureKey opts d sq k rq = rq"
proof (cases "keyValue opts d (sprop rq k) (sprop sq k)")
  case None
  then show ?thesis by (simp add: pureKey_keyValue)
next
  case (Some x)
  with assms(1) have x: "x = sprop rq k" by (simp add: stable_def)
  from Some assms(2) have "x \<noteq> SScalar Undefined \<or> isSObj (sprop rq k) \<or> isSArr (sprop rq k)"
    by (auto simp: keyValue_not_fun split: if_splits)
  with x have "sprop rq k \<noteq> SScalar Undefined" by auto
  with sprop_cases [of rq k] have "map_of rq k = Some (sprop rq k)" by auto
  with Some x show ?thesis by (simp add: pureKey_keyValue assign_same)
qed

lemma sprop_assign: "sprop (assign rq k x) k = x"
  by (simp add: sprop_def map_of_assign)

lemma after_step:
  assumes "settled opts (sprop sq k)"
  shows "stable opts d (sprop (pureKey opts d sq k acc) k) (sprop sq k)"
proof -
  let ?U = "sprop sq k" and ?T = "sprop acc k"
  from assms have nf: "\<forall>f. ?U \<noteq> SFun f"
    and self: "\<And>d. pureObjects opts d ?U ?U = ?U"
    and idem: "\<And>t d. pureObjects opts d (pureObjects opts d t ?U) ?U = pureObjects opts d t ?U"
    and arrs: "\<And>t. isSArr t \<Longrightarrow> isSArr ?U \<Longrightarrow>
        pureArrays opts (pureArrays opts t ?U) ?U = pureArrays opts t ?U"
    and arrself: "isSArr ?U \<Longrightarrow> pureArrays opts ?U ?U = ?U"
    by (simp_all add: settled_def)
  note kv = keyValue_not_fun [OF nf]
  show ?thesis
  proof (cases "keyValue opts d ?T ?U")
    case None
    then show ?thesis by (simp add: pureKey_keyValue stable_def)
  next
    case (Some x)
    then have s: "sprop (pureKey opts d sq k acc) k = x"
      by (simp add: pureKey_keyValue sprop_assign)
    have "keyValue opts d x ?U = Some x"
    proof (cases "isSObj ?T \<and> isSObj ?U")
      case True
      with Some have x: "x = pureObjects opts (Suc d) ?T ?U" by (simp add: kv)
      with True have "isSObj x" by (simp add: isSObj_pureObjects)
      with True x idem show ?thesis by (simp add: kv)
    next
      case no: False
      show ?thesis
      proof (cases "isSArr ?T \<and> isSArr ?U")
        case True
        with Some no have x: "x = pureArrays opts ?T ?U" by (simp add: kv)
        with True have "isSArr x" by (simp add: isSArr_pureArrays)
        moreover from True have "\<not> isSObj ?U" by (cases ?U) auto
        ultimately show ?thesis
          using True x arrs by (simp add: kv)
      next
        case False
        with Some no have x: "x = ?U" and nu: "?U \<noteq> SScalar Undefined"
          by (auto simp: kv split: if_splits)
        show ?thesis
          unfolding x using nu self arrself by (simp add: kv)
      qed
    qed
    with s show ?thesis by (simp add: stable_def)
  qed
qed

lemma fold_stable:
  assumes "\<forall>k. settled opts (sprop sq k)"
  shows "distinct ks \<Longrightarrow>
     \<forall>k \<in> set ks. stable opts d (sprop (fold (pureKey opts d sq) ks acc) k) (sprop sq k)"
proof (induction ks arbitrary: acc)
  case Nil
  then show ?case by simp
next
  case (Cons k ks)
  let ?acc1 = "pureKey opts d sq k acc"
  from Cons.prems have k: "k \<notin> set ks" and dk: "distinct ks" by simp_all
  from fold_map_of_other [OF k, of opts d sq ?acc1]
  have "sprop (fold (pureKey opts d sq) ks ?acc1) k = sprop ?acc1 k"
    by (simp add: sprop_def)
  with after_step [of opts sq k d acc] assms
  have "stable opts d (sprop (fold (pureKey opts d sq) (k # ks) acc) k) (sprop sq k)"
    by simp
  with Cons.IH [OF dk, of ?acc1] show ?case by simp
qed

lemma set_uniq: "set (uniq seen xs) = set xs - set seen"
  by (induction xs arbitrary: seen) auto

lemma set_objectKeys: "set (objectKeys ks) = {k \<in> set ks. isStrKey k}"
proof -
  have "isIndexKey k \<Longrightarrow> isStrKey k" for k by (cases k) auto
  then show ?thesis by (auto simp: objectKeys_def)
qed

lemma set_keyOrder: "set (keyOrder a b) = set a \<union> set b"
  by (auto simp: keyOrder_def set_uniq set_objectKeys)

lemma fold_noop: "\<forall>k. f k x = x \<Longrightarrow> fold f ks x = x"
  by (induction ks) auto

lemma sprop_absent: "k \<notin> fst ` set sq \<Longrightarrow> sprop sq k = SScalar Undefined"
proof -
  assume "k \<notin> fst ` set sq"
  then have "map_of sq k = None" by (simp add: map_of_eq_None_iff)
  then show ?thesis by (simp add: sprop_def)
qed

lemma second_fold:
  assumes st: "\<forall>k. settled opts (sprop sq k)"
  shows "fold (pureKey opts d sq) ks'
           (fold (pureKey opts d sq) (keyOrder (map fst tq) (map fst sq)) tq) =
         fold (pureKey opts d sq) (keyOrder (map fst tq) (map fst sq)) tq"
proof (rule fold_noop, rule allI)
  fix k
  let ?ks = "keyOrder (map fst tq) (map fst sq)"
  let ?rq = "fold (pureKey opts d sq) ?ks tq"
  from st have nf: "\<forall>f. sprop sq k \<noteq> SFun f" by (simp add: settled_def)
  show "pureKey opts d sq k ?rq = ?rq"
  proof (cases "k \<in> set ?ks")
    case True
    with fold_stable [OF st distinct_keyOrder, of "map fst tq" "map fst sq" d tq]
    have "stable opts d (sprop ?rq k) (sprop sq k)" by blast
    from stable_noop [OF this nf] show ?thesis .
  next
    case False
    then have "k \<notin> fst ` set sq" by (simp add: set_keyOrder)
    then have "sprop sq k = SScalar Undefined" by (rule sprop_absent)
    then show ?thesis by (rule pureKey_undefined)
  qed
qed

lemma self_fold:
  assumes st: "\<forall>k. settled opts (sprop sq k)"
  shows "fold (pureKey opts d sq) ks sq = sq"
proof (rule fold_noop, rule allI)
  fix k
  from st have nf: "\<forall>f. sprop sq k \<noteq> SFun f"
    and self: "\<And>d. pureObjects opts d (sprop sq k) (sprop sq k) = sprop sq k"
    and arrself: "isSArr (sprop sq k) \<Longrightarrow> pureArrays opts (sprop sq k) (sprop sq k) = sprop sq k"
    by (simp_all add: settled_def)
  have "stable opts d (sprop sq k) (sprop sq k)"
    using self arrself by (simp add: stable_def keyValue_not_fun [OF nf])
  from stable_noop [OF this nf] show "pureKey opts d sq k sq = sq" .
qed

lemma pureLeaf_plain:
  "\<forall>f. s \<noteq> SFun f \<Longrightarrow> pureLeaf opts t s = (if s = SScalar Undefined then t else s)"
  by (cases "(opts, t, s)" rule: pureLeaf.cases) auto

lemma pureObjects_leaf:
  "\<not> maxDepth opts \<le> int d \<Longrightarrow> \<not> isSObj t \<Longrightarrow> \<not> isSArr t \<Longrightarrow>
   pureObjects opts d t s = pureLeaf opts t s"
  by (subst pureObjects_unfold) simp

lemma pureObjects_depth: "maxDepth opts \<le> int d \<Longrightarrow> pureObjects opts d t s = t"
  by (subst pureObjects_unfold) simp

lemma settled_all: "callableFree s \<Longrightarrow> settled opts s"
proof (induction s rule: measure_induct_rule [where f = size])
  case (less s)
  from less.prems have nf: "\<forall>f. s \<noteq> SFun f" by auto
  have sub: "\<forall>k. settled opts (sprop sq k)" if s: "s = SObj sq" for sq
  proof
    fix k
    from size_sprop [of sq k] s have "size (sprop sq k) < size s" by simp
    moreover from less.prems s have "callableFree (sprop sq k)"
      by (simp only: callableFree_sprop)
    ultimately show "settled opts (sprop sq k)" by (rule less.IH)
  qed
  have elems: "\<forall>e \<in> set ss. settled opts e" if s: "s = SArr ss" for ss
  proof
    fix e
    assume e: "e \<in> set ss"
    with s have "e \<in> set (selems s)" by simp
    then have "size e < size s" by (rule size_selems)
    moreover from less.prems s e have "callableFree e" by simp
    ultimately show "settled opts e" by (rule less.IH)
  qed
  have arrself: "pureArrays opts s s = s" if "isSArr s"
  proof -
    from that obtain ss where s: "s = SArr ss" by (cases s) auto
    from pureElems_self [OF elems [OF s]] s show ?thesis
      by (simp add: pureArrays_def)
  qed
  have arrs: "pureArrays opts (pureArrays opts t s) s = pureArrays opts t s"
    if "isSArr t" "isSArr s" for t
  proof -
    from that obtain ss where s: "s = SArr ss" by (cases s) auto
    from pureElems_idem [OF elems [OF s]] pureElems_self [OF elems [OF s]] s show ?thesis
      by (simp add: pureArrays_def)
  qed
  have self: "pureObjects opts d s s = s" for d
  proof (cases "maxDepth opts \<le> int d")
    case True
    then show ?thesis by (rule pureObjects_depth)
  next
    case dp: False
    show ?thesis
    proof (cases s)
      case (SObj sq)
      with dp self_fold [OF sub [OF SObj]] show ?thesis
        by (simp add: pureObjects_composite pureSource_def)
    next
      case (SArr ts)
      with dp arrself show ?thesis
        by (simp add: pureObjects_composite pureSource_def)
    next
      case (SScalar v)
      with dp show ?thesis
        by (simp add: pureObjects_leaf pureLeaf_plain)
    next
      case (SFun f)
      with nf show ?thesis by simp
    next
      case (SOpaque x)
      with dp show ?thesis
        by (simp add: pureObjects_leaf pureLeaf_plain)
    qed
  qed
  have idem: "pureObjects opts d (pureObjects opts d t s) s = pureObjects opts d t s" for t d
  proof (cases "maxDepth opts \<le> int d")
    case True
    then show ?thesis by (simp add: pureObjects_depth)
  next
    case dp: False
    show ?thesis
    proof (cases "isSObj t \<or> isSArr t")
      case False
      with dp have r: "pureObjects opts d t s = (if s = SScalar Undefined then t else s)"
        by (simp add: pureObjects_leaf pureLeaf_plain [OF nf])
      show ?thesis
      proof (cases "s = SScalar Undefined")
        case True
        with r show ?thesis by simp
      next
        case False
        with r self show ?thesis by simp
      qed
    next
      case comp: True
      with dp have r: "pureObjects opts d t s = pureSource opts d t s"
        by (rule pureObjects_composite)
      show ?thesis
      proof (cases "isSObj t \<and> isSObj s")
        case True
        then obtain tq sq where t: "t = SObj tq" and s: "s = SObj sq"
          by (cases t; cases s) auto
        let ?rq = "fold (pureKey opts d sq) (keyOrder (map fst tq) (map fst sq)) tq"
        from r t s have r1: "pureObjects opts d t s = SObj ?rq"
          by (simp add: pureSource_def)
        have "pureObjects opts d (SObj ?rq) s = pureSource opts d (SObj ?rq) s"
          using dp by (simp add: pureObjects_composite)
        also have "\<dots> = SObj (fold (pureKey opts d sq)
                            (keyOrder (map fst ?rq) (map fst sq)) ?rq)"
          using s by (simp add: pureSource_def)
        also have "\<dots> = SObj ?rq"
          using second_fold [OF sub [OF s]] by simp
        finally show ?thesis using r1 by simp
      next
        case False
        show ?thesis
        proof (cases "nullish s")
          case True
          with r have "pureObjects opts d t s = t" by (simp add: pureSource_def)
          then show ?thesis by simp
        next
          case nn: False
          show ?thesis
          proof (cases "isSArr t \<and> isSArr s")
            case True
            with r nn have r1: "pureObjects opts d t s = pureArrays opts t s"
              by (simp add: pureSource_def)
            from True have ia: "isSArr (pureArrays opts t s)"
              by (simp add: isSArr_pureArrays)
            then have "pureObjects opts d (pureArrays opts t s) s =
                pureSource opts d (pureArrays opts t s) s"
              using dp by (simp add: pureObjects_composite)
            also have "\<dots> = pureArrays opts (pureArrays opts t s) s"
              using nn True ia by (simp add: pureSource_def)
            also have "\<dots> = pureArrays opts t s"
              using True by (simp add: arrs)
            finally show ?thesis using r1 by simp
          next
            case na: False
            with r False nn have "pureObjects opts d t s = s"
              by (auto simp: pureSource_def)
            with self show ?thesis by simp
          qed
        qed
      qed
    qed
  qed
  from nf self idem arrself arrs show ?case
    by (simp add: settled_def)
qed

text \<open>
  On trees, merging a source free of callables a second time changes nothing, whatever the
  target, the depth and the depth limit.
\<close>

lemma pureObjects_idempotent:
  "callableFree s \<Longrightarrow>
   pureObjects opts d (pureObjects opts d t s) s = pureObjects opts d t s"
  using settled_all [of s opts] by (simp add: settled_def)

section \<open>Merging the same source twice\<close>

lemma vis_initial [simp]: "vis (initial h) = {}"
  by (simp add: vis_def initial_def)

lemma heap_initial [simp]: "heap (initial h) = h"
  by (simp add: initial_def)

lemma mergeable_result:
  assumes "mergeable tt ts" and "callableFree ts"
  shows "mergeable (pureObjects opts d tt ts) ts"
proof (cases "isSScalar ts \<and> \<not> nullish ts")
  case False
  then show ?thesis by (auto simp: mergeable_def)
next
  case True
  with assms(1) have leaf: "\<not> isSObj tt" "\<not> isSArr tt"
    by (auto simp: mergeable_def)
  from True obtain v where ts: "ts = SScalar v" by (cases ts) auto
  have "pureObjects opts d tt ts = tt \<or> pureObjects opts d tt ts = ts"
  proof (cases "maxDepth opts \<le> int d")
    case True
    then show ?thesis by (simp add: pureObjects_depth)
  next
    case False
    with leaf ts show ?thesis
      by (simp add: pureObjects_leaf pureLeaf_plain)
  qed
  with leaf ts show ?thesis by (auto simp: mergeable_def)
qed

text \<open>
  A source in which an object occurs twice is not in general merged idempotently: the
  visited map makes the engine skip the second occurrence, and which occurrence comes second
  can differ between the two calls. With \<^verbatim>\<open>maxDepth: 3\<close>, the target
  \<^verbatim>\<open>{j: 0, k: {x: {}}, k2: {}}\<close> and the source \<^verbatim>\<open>{j: B, k: A, k2: Y}\<close> where
  \<^verbatim>\<open>B = {q: A}\<close>, \<^verbatim>\<open>A = {x: Y}\<close> and \<^verbatim>\<open>Y = {z: 1}\<close>, the first call leaves \<^verbatim>\<open>k2\<close> as
  \<^verbatim>\<open>{}\<close> (address 12), because \<^verbatim>\<open>Y\<close> was visited under \<^verbatim>\<open>k\<close>. In the second call \<^verbatim>\<open>j\<close> holds
  \<^verbatim>\<open>B\<close>, the engine descends into it and visits \<^verbatim>\<open>A\<close> there, stops at the depth limit before
  \<^verbatim>\<open>Y\<close>, skips \<^verbatim>\<open>A\<close> under \<^verbatim>\<open>k\<close>, and so merges \<^verbatim>\<open>Y\<close> under \<^verbatim>\<open>k2\<close>, which becomes
  \<^verbatim>\<open>{z: 1}\<close> (address 17).
\<close>

lemma shared_source_not_idempotent:
  "deepmerge 10 noCallbacks
     [PlainObj [(KStr ''j'', Num 0), (KStr ''k'', Ref 1), (KStr ''k2'', Ref 3)],
      PlainObj [(KStr ''x'', Ref 2)], PlainObj [], PlainObj [],
      PlainObj [(KStr ''j'', Ref 5), (KStr ''k'', Ref 6), (KStr ''k2'', Ref 7)],
      PlainObj [(KStr ''q'', Ref 6)], PlainObj [(KStr ''x'', Ref 7)],
      PlainObj [(KStr ''z'', Num 1)],
      PlainObj [(KStr ''maxDepth'', Num 3)]]
     (Ref 0) [Ref 4, Ref 8] =
   Some (Inr (Ref 9,
     \<lparr>heap =
        [PlainObj [(KStr ''j'', Num 0), (KStr ''k'', Ref 1), (KStr ''k2'', Ref 3)],
         PlainObj [(KStr ''x'', Ref 2)], PlainObj [], PlainObj [],
         PlainObj [(KStr ''j'', Ref 5), (KStr ''k'', Ref 6), (KStr ''k2'', Ref 7)],
         PlainObj [(KStr ''q'', Ref 6)], PlainObj [(KStr ''x'', Ref 7)],
         PlainObj [(KStr ''z'', Num 1)],
         PlainObj [(KStr ''maxDepth'', Num 3)],
         PlainObj [(KStr ''j'', Ref 5), (KStr ''k'', Ref 10), (KStr ''k2'', Ref 12)],
         PlainObj [(KStr ''x'', Ref 11)], PlainObj [(KStr ''z'', Num 1)], PlainObj []],
      visited = [(7, Ref 11), (6, Ref 10), (4, Ref 9)], warnings = 0\<rparr>)) \<and>
   deepmerge 10 noCallbacks
     [PlainObj [(KStr ''j'', Num 0), (KStr ''k'', Ref 1), (KStr ''k2'', Ref 3)],
      PlainObj [(KStr ''x'', Ref 2)], PlainObj [], PlainObj [],
      PlainObj [(KStr ''j'', Ref 5), (KStr ''k'', Ref 6), (KStr ''k2'', Ref 7)],
      PlainObj [(KStr ''q'', Ref 6)], PlainObj [(KStr ''x'', Ref 7)],
      PlainObj [(KStr ''z'', Num 1)],
      PlainObj [(KStr ''maxDepth'', Num 3)],
      PlainObj [(KStr ''j'', Ref 5), (KStr ''k'', Ref 10), (KStr ''k2'', Ref 12)],
      PlainObj [(KStr ''x'', Ref 11)], PlainObj [(KStr ''z'', Num 1)], PlainObj []]
     (Ref 9) [Ref 4, Ref 8] =
   Some (Inr (Ref 13,
     \<lparr>heap =
        [PlainObj [(KStr ''j'', Num 0), (KStr ''k'', Ref 1), (KStr ''k2'', Ref 3)],
         PlainObj [(KStr ''x'', Ref 2)], PlainObj [], PlainObj [],
         PlainObj [(KStr ''j'', Ref 5), (KStr ''k'', Ref 6), (KStr ''k2'', Ref 7)],
         PlainObj [(KStr ''q'', Ref 6)], PlainObj [(KStr ''x'', Ref 7)],
         PlainObj [(KStr ''z'', Num 1)],
         PlainObj [(KStr ''maxDepth'', Num 3)],
         PlainObj [(KStr ''j'', Ref 5), (KStr ''k'', Ref 10), (KStr ''k2'', Ref 12)],
         PlainObj [(KStr ''x'', Ref 11)], PlainObj [(KStr ''z'', Num 1)], PlainObj [],
         PlainObj [(KStr ''j'', Ref 14), (KStr ''k'', Ref 16), (KStr ''k2'', Ref 17)],
         PlainObj [(KStr ''q'', Ref 15)], PlainObj [(KStr ''x'', Ref 7)],
         PlainObj [(KStr ''x'', Ref 11)], PlainObj [(KStr ''z'', Num 1)]],
      visited = [(7, Ref 17), (6, Ref 15), (5, Ref 14), (4, Ref 13)], warnings = 1\<rparr>))"
  by code_simp

section \<open>Pending sources\<close>

text \<open>
  Basic facts on the relations of the section on heaps that may hold cycles: each single
  step of the engine is in \<open>after\<close>, the relations compose, they keep the state sound and
  they never add a pending object.
\<close>

lemma finite_pending [simp]: "finite (pending L st)"
  by (simp add: pending_def)

lemma extends_refl [simp]: "extends st st"
  by (simp add: extends_def)

lemma extends_trans: "extends s1 s2 \<Longrightarrow> extends s2 s3 \<Longrightarrow> extends s1 s3"
  using stepClosed_extends by (rule stepClosed_trans)

lemma extends_plain:
  assumes "extends st st'" and "a < length (heap st)"
  shows "isPlainObject (heap st') (Ref a) = isPlainObject (heap st) (Ref a)"
  using assms extends_isPlainObject [of st st' "Ref a"] by simp

lemma extends_array:
  assumes "extends st st'" and "lookup (heap st) a = Some (Arr xs)"
  shows "lookup (heap st') a = Some (Arr xs)"
proof -
  from assms(2) have a: "a < length (heap st)" and e: "heap st ! a = Arr xs"
    by (auto simp: lookup_def split: if_splits)
  with assms(1) have "sameKind (Arr xs) (heap st' ! a)" "a < length (heap st')"
    by (auto simp: extends_def)
  then show ?thesis by (simp add: lookup_def)
qed

lemma extends_array_back:
  assumes "extends st st'" and "a < length (heap st)" and "lookup (heap st') a = Some (Arr xs)"
  shows "lookup (heap st) a = Some (Arr xs)"
proof -
  from assms have "sameKind (heap st ! a) (Arr xs)"
    by (auto simp: extends_def lookup_def split: if_splits)
  then have "heap st ! a = Arr xs" by (cases "heap st ! a") auto
  with assms(2) show ?thesis by (simp add: lookup_def)
qed

lemma pending_mono:
  assumes "extends st st'" and "vis st \<subseteq> vis st'" and "L \<le> length (heap st)"
  shows "pending L st' \<subseteq> pending L st"
  using assms extends_plain [OF assms(1)] by (auto simp: pending_def)

lemma card_pending_mono:
  assumes "extends st st'" and "vis st \<subseteq> vis st'" and "L \<le> length (heap st)"
  shows "card (pending L st') \<le> card (pending L st)"
  by (rule card_mono [OF finite_pending pending_mono [OF assms]])

lemma pending_mark:
  assumes "a \<in> pending L st"
  shows "card (pending L (st\<lparr>visited := (a, r) # visited st\<rparr>)) < card (pending L st)"
proof -
  have "pending L (st\<lparr>visited := (a, r) # visited st\<rparr>) = pending L st - {a}"
    by (auto simp: pending_def vis_def)
  moreover have "card (pending L st - {a}) < card (pending L st)"
    using assms by (intro card_Diff1_less) simp_all
  ultimately show ?thesis by (simp only:)
qed

lemma after_refl [simp]: "after opts st st"
  by (simp add: after_def noNewPlain_def)

lemma afterExcept_refl [simp]: "afterExcept opts N st st"
  by (simp add: afterExcept_def noNewPlain_def frameExcept_def)

lemma after_afterExcept: "after opts st st' \<Longrightarrow> afterExcept opts N st st'"
  by (auto simp: after_def afterExcept_def frame_def frameExcept_def)

lemma after_trans:
  assumes "after opts s1 s2" and "after opts s2 s3"
  shows "after opts s1 s3"
  using assms frame_trans [of s1 s2 s3] extends_trans [of s1 s2 s3]
  by (auto simp: after_def noNewPlain_def split: if_splits)

lemma afterExcept_trans:
  assumes "afterExcept opts N s1 s2" and "afterExcept opts N s2 s3"
  shows "afterExcept opts N s1 s3"
proof -
  from assms have l: "length (heap s1) \<le> length (heap s2)"
    by (simp add: afterExcept_def extends_def)
  from assms frameExcept_trans [OF _ l, of N s3] extends_trans [of s1 s2 s3]
  show ?thesis
    by (auto simp: afterExcept_def noNewPlain_def split: if_splits)
qed

lemma after_warn: "after opts st (st\<lparr>warnings := Suc (warnings st)\<rparr>)"
  by (simp add: after_def noNewPlain_def frame_def extends_def vis_def)

lemma after_mark: "after opts st (st\<lparr>visited := (a, r) # visited st\<rparr>)"
  by (auto simp: after_def noNewPlain_def frame_def extends_def vis_def)

lemma after_alloc:
  assumes "alloc st ob = (r, st')" and "clone opts \<or> (\<forall>ps. ob \<noteq> PlainObj ps)"
  shows "after opts st st'"
proof -
  note fa = frame_alloc [OF assms(1)]
  have e: "extends st st'"
    using assms(1) stepClosed_alloc [OF stepClosed_extends] by blast
  have "noNewPlain st st'" if "\<forall>ps. ob \<noteq> PlainObj ps"
    unfolding noNewPlain_def
  proof (intro allI impI)
    fix a
    assume p: "isPlainObject (heap st') (Ref a)"
    then have "a < length (heap st')" by (auto simp: lookup_def split: if_splits)
    with fa have "a < length (heap st) \<or> a = length (heap st)" by auto
    then show "isPlainObject (heap st) (Ref a)"
    proof
      assume "a < length (heap st)"
      with p extends_plain [OF e] show ?thesis by simp
    next
      assume "a = length (heap st)"
      with p fa that show ?thesis by (auto split: obj.splits)
    qed
  qed
  with assms(2) e fa show ?thesis
    by (auto simp: after_def)
qed

lemma after_write:
  assumes "after opts st st1" and "isPlainObject (heap st) (Ref N)"
  shows "afterExcept opts N st (writeProp st1 (Ref N) k v)"
proof -
  let ?st2 = "writeProp st1 (Ref N) k v"
  from assms(2) have N: "N < length (heap st)"
    by (auto simp: lookup_def split: if_splits)
  from assms(1) have e1: "extends st st1" and v1: "vis st \<subseteq> vis st1"
    by (simp_all add: after_def)
  have e2: "extends st1 ?st2"
    using stepClosed_write [OF stepClosed_extends] .
  from e1 e2 have e: "extends st ?st2" by (rule extends_trans)
  have v: "vis ?st2 = vis st1" by (simp add: writeProp_def vis_def)
  from extends_plain [OF e1 N] assms(2) have "isPlainObject (heap st1) (Ref N)"
    by blast
  then obtain ps where l1: "lookup (heap st1) N = Some (PlainObj ps)"
    by (auto split: option.splits obj.splits)
  have h: "\<And>a. lookup (heap ?st2) a =
      (if a = N then Some (PlainObj (assign ps k v)) else lookup (heap st1) a)"
    using lookup_setProp [OF l1] by (simp add: writeProp_def)
  show ?thesis
  proof (cases "clone opts")
    case True
    with assms(1) have "frame st st1" by (simp add: after_def)
    then have "frameExcept N st ?st2"
      by (simp add: frame_def frameExcept_def h)
    with True e v v1 show ?thesis by (simp add: afterExcept_def)
  next
    case False
    with assms(1) have n1: "noNewPlain st st1" by (simp add: after_def)
    have "noNewPlain st ?st2"
      unfolding noNewPlain_def
    proof (intro allI impI)
      fix a
      assume "isPlainObject (heap ?st2) (Ref a)"
      then have "isPlainObject (heap st1) (Ref a)"
        using l1 by (auto simp: h split: if_splits)
      with n1 show "isPlainObject (heap st) (Ref a)" by (simp add: noNewPlain_def)
    qed
    with False e v v1 show ?thesis by (simp add: afterExcept_def)
  qed
qed

lemma sound_afterExcept:
  assumes s: "sound opts L st" and a: "afterExcept opts N st st'"
    and w: "clone opts \<longrightarrow> L \<le> N \<or> N \<in> vis st"
  shows "sound opts L st'"
proof -
  from a have e: "extends st st'" and v: "vis st \<subseteq> vis st'"
    by (simp_all add: afterExcept_def)
  from s have L: "L \<le> length (heap st)" by (simp add: sound_def)
  with e have L': "L \<le> length (heap st')" by (simp add: extends_def)
  show ?thesis
  proof (cases "clone opts")
    case True
    with s a have o: "originals L st" and f: "frameExcept N st st'"
      by (simp_all add: sound_def afterExcept_def)
    have "originals L st'"
      unfolding originals_def
    proof (intro allI impI)
      fix x ob
      assume x: "x < L" and l: "lookup (heap st') x = Some ob"
        and c: "x \<notin> vis st' \<or> (\<exists>xs. ob = Arr xs)"
      from x L have xl: "x < length (heap st)" by simp
      show "refsBelow L ob"
      proof (cases "\<exists>xs. ob = Arr xs")
        case True
        then obtain xs where "ob = Arr xs" by blast
        with l extends_array_back [OF e xl] have "lookup (heap st) x = Some ob" by simp
        with o x True show ?thesis by (simp add: originals_def)
      next
        case False
        with c have nv: "x \<notin> vis st'" by simp
        with v have nv0: "x \<notin> vis st" by auto
        with w \<open>clone opts\<close> x have "x \<noteq> N" by auto
        with f xl l have "lookup (heap st) x = Some ob"
          by (simp add: frameExcept_def)
        with o x nv0 show ?thesis by (simp add: originals_def)
      qed
    qed
    with True L' show ?thesis by (simp add: sound_def)
  next
    case False
    with s a have "plainBelow L st" "noNewPlain st st'"
      by (simp_all add: sound_def afterExcept_def)
    then have "plainBelow L st'" by (simp add: plainBelow_def noNewPlain_def)
    with False L' show ?thesis by (simp add: sound_def)
  qed
qed

lemma sound_after:
  assumes "sound opts L st" and "after opts st st'"
  shows "sound opts L st'"
proof -
  from assms(1) have "L \<le> length (heap st)" by (simp add: sound_def)
  with sound_afterExcept [OF assms(1) after_afterExcept [OF assms(2)], of "length (heap st)"]
  show ?thesis by simp
qed

lemma card_after:
  assumes "sound opts L st" and "afterExcept opts N st st'"
  shows "card (pending L st') \<le> card (pending L st)"
  using assms by (intro card_pending_mono) (simp_all add: sound_def afterExcept_def)

lemma originals_array:
  assumes "sound opts L st" and "clone opts" and "b < L"
    and "lookup (heap st) b = Some (Arr xs)"
  shows "list_all (below L) xs"
proof -
  from assms(1,2) have "originals L st" by (simp add: sound_def)
  with assms(3,4) have "refsBelow L (Arr xs)"
    unfolding originals_def by blast
  then show ?thesis by simp
qed

lemma originals_plain:
  assumes "sound opts L st" and "clone opts" and "b < L" and "b \<notin> vis st"
    and "lookup (heap st) b = Some (PlainObj sp)"
  shows "refsBelow L (PlainObj sp)"
proof -
  from assms(1,2) have "originals L st" by (simp add: sound_def)
  with assms(3,4,5) show ?thesis
    unfolding originals_def by blast
qed

section \<open>Every call returns\<close>

text \<open>
  With the built-in options each of the seven functions returns when fewer objects are
  pending than fuel is left: the loops by induction on the list they run over, the calls of
  \<^verbatim>\<open>mergeObjects\<close> by induction on the fuel.
\<close>

lemma elems_return:
  assumes O: "objectsReturn n opts L"
  shows "sound opts L st \<Longrightarrow> \<forall>s \<in> set ss. fit opts L s \<Longrightarrow> card (pending L st) < n \<Longrightarrow>
     \<exists>ms st'. mergeElems n opts st ts ss = Some (Inr (ms, st')) \<and> after opts st st'"
proof (induction ts ss arbitrary: st rule: list_induct2')
  case 1
  show ?case by simp
next
  case (2 t ts)
  show ?case by simp
next
  case (3 s ss)
  show ?case by simp
next
  case (4 t ts s ss)
  from "4.prems"(2) have fs: "fit opts L s" and fr: "\<forall>s \<in> set ss. fit opts L s"
    by simp_all
  show ?case
  proof (cases "isPlainObject (heap st) t \<and> isPlainObject (heap st) s")
    case True
    with O "4.prems"(1,3) fs have "\<exists>v st'.
        mergeObjects n opts st t [s] 0 = Some (Inr (v, st')) \<and> after opts st st'"
      unfolding objectsReturn_def by blast
    then obtain v st1 where m: "mergeObjects n opts st t [s] 0 = Some (Inr (v, st1))"
      and a: "after opts st st1"
      by blast
    note s1 = sound_after [OF "4.prems"(1) a]
    from card_after [OF "4.prems"(1) after_afterExcept [OF a]] "4.prems"(3)
    have c1: "card (pending L st1) < n" by simp
    from "4.IH" [OF s1 fr c1] obtain ms st' where
      m': "mergeElems n opts st1 ts ss = Some (Inr (ms, st'))" and a': "after opts st1 st'"
      by blast
    have "mergeElems n opts st (t # ts) (s # ss) = Some (Inr (v # ms, st'))"
      using True m m' by simp
    with after_trans [OF a a'] show ?thesis by blast
  next
    case False
    from "4.IH" [OF "4.prems"(1) fr "4.prems"(3)] obtain ms st' where
      m': "mergeElems n opts st ts ss = Some (Inr (ms, st'))" and a': "after opts st st'"
      by blast
    have "mergeElems n opts st (t # ts) (s # ss) = Some (Inr (s # ms, st'))"
      using False m' by auto
    with a' show ?thesis by blast
  qed
qed

lemma arrays_return:
  assumes O: "objectsReturn n opts L" and B: "builtIn opts"
    and s: "sound opts L st" and f: "\<forall>s \<in> set (elems (heap st) sv). fit opts L s"
    and c: "card (pending L st) < n"
  shows "\<exists>A st'. mergeArrays n opts st tv sv = Some (Inr (Ref A, st')) \<and>
           length (heap st) \<le> A \<and> after opts st st'"
proof -
  have fresh: "\<exists>A st'. alloc st1 (Arr xs) = (Ref A, st') \<and> length (heap st) \<le> A \<and>
      after opts st st'" if "after opts st st1" for st1 xs
  proof -
    obtain r st' where al: "alloc st1 (Arr xs) = (r, st')"
      by (cases "alloc st1 (Arr xs)")
    from after_alloc [OF al] have a: "after opts st1 st'" by simp
    from that have "length (heap st) \<le> length (heap st1)"
      by (simp add: after_def extends_def)
    with frame_alloc [OF al] al after_trans [OF that a] show ?thesis by auto
  qed
  from B have "arrayMerge opts = Replace \<or> arrayMerge opts = Concat \<or> arrayMerge opts = Merge"
    by (simp add: builtIn_def)
  then show ?thesis
  proof (elim disjE)
    assume R: "arrayMerge opts = Replace"
    from fresh [OF after_refl, of "elems (heap st) sv"] R show ?thesis
      by (auto simp: mergeArrays.simps)
  next
    assume C: "arrayMerge opts = Concat"
    from fresh [OF after_refl, of "elems (heap st) tv @ elems (heap st) sv"] C show ?thesis
      by (auto simp: mergeArrays.simps)
  next
    assume M: "arrayMerge opts = Merge"
    from elems_return [OF O s f c, of "elems (heap st) tv"] obtain ms st1 where
      m: "mergeElems n opts st (elems (heap st) tv) (elems (heap st) sv) = Some (Inr (ms, st1))"
      and a: "after opts st st1"
      by blast
    from fresh [OF a, of ms] M m show ?thesis
      by (auto simp: mergeArrays.simps)
  qed
qed

lemma below_propOf: "list_all (\<lambda>p. below L (snd p)) sp \<Longrightarrow> below L (propOf sp k)"
proof (cases "map_of sp k")
  case None
  then show ?thesis by (simp add: propOf_def)
next
  case (Some v)
  assume a: "list_all (\<lambda>p. below L (snd p)) sp"
  from Some have "(k, v) \<in> set sp" by (rule map_of_SomeD)
  with a have "below L v" by (auto simp: list_all_iff)
  with Some show ?thesis by (simp add: propOf_def)
qed

lemma key_return:
  assumes O: "objectsReturn n opts L" and B: "builtIn opts"
    and s: "sound opts L st" and N: "isPlainObject (heap st) (Ref N)"
    and S: "lookup (heap st) S = Some (PlainObj sp)"
    and c: "clone opts \<longrightarrow> refsBelow L (PlainObj sp)"
    and m: "card (pending L st) < n"
  shows "\<exists>st'. mergeKey n opts st (Ref N) (Ref S) k d = Some (Inr st') \<and>
           afterExcept opts N st st'"
proof -
  let ?tv = "getProp (heap st) (Ref N) k" and ?sv = "getProp (heap st) (Ref S) k"
  have gs: "?sv = propOf sp k" using S by (rule getProp_propOf)
  have fs: "fit opts L ?sv"
    using c below_propOf [of L sp k] by (simp add: fit_def gs)
  have cd: "customDecision opts k ?tv ?sv = None"
    using B by (simp add: customDecision_def builtIn_def)
  have fin: "\<exists>st'. mergeKey n opts st (Ref N) (Ref S) k d = Some (Inr st') \<and>
      afterExcept opts N st st'"
    if "mergeKey n opts st (Ref N) (Ref S) k d = Some (Inr (writeProp st1 (Ref N) k v))"
      and "after opts st st1" for st1 v
    using that after_write [OF that(2) N] by blast
  show ?thesis
  proof (cases "\<exists>f g. asFunction (heap st) ?tv = Some f \<and> asFunction (heap st) ?sv = Some g")
    case True
    then obtain f g where af: "asFunction (heap st) ?tv = Some f"
      "asFunction (heap st) ?sv = Some g"
      by blast
    note mk = mergeKey_functions [OF cd af, of n d]
    show ?thesis
    proof (cases "functionMerge opts = Compose")
      case True
      obtain v st1 where al: "alloc st (Callable (Composed f g)) = (v, st1)"
        by (cases "alloc st (Callable (Composed f g))")
      from after_alloc [OF al] have "after opts st st1" by simp
      moreover have "mergeKey n opts st (Ref N) (Ref S) k d =
          Some (Inr (writeProp st1 (Ref N) k v))"
        using mk True al by (simp add: mergeFunctions_def)
      ultimately show ?thesis by (intro fin [of st1 v]) simp_all
    next
      case False
      have "mergeKey n opts st (Ref N) (Ref S) k d = Some (Inr (writeProp st (Ref N) k ?sv))"
        using mk False by (simp add: mergeFunctions_def)
      then show ?thesis by (intro fin [of st ?sv]) simp_all
    qed
  next
    case nf: False
    note mk = mergeKey_others [OF cd nf, of n d]
    show ?thesis
    proof (cases "isPlainObject (heap st) ?tv \<and> isPlainObject (heap st) ?sv")
      case True
      with O s fs m have "\<exists>v st'.
          mergeObjects n opts st ?tv [?sv] (Suc d) = Some (Inr (v, st')) \<and> after opts st st'"
        unfolding objectsReturn_def by blast
      then obtain v st1 where
        r: "mergeObjects n opts st ?tv [?sv] (Suc d) = Some (Inr (v, st1))"
        and a: "after opts st st1"
        by blast
      have "mergeKey n opts st (Ref N) (Ref S) k d = Some (Inr (writeProp st1 (Ref N) k v))"
        using mk True r by simp
      with a show ?thesis by (intro fin [of st1 v]) simp_all
    next
      case no: False
      show ?thesis
      proof (cases "isArray (heap st) ?tv \<and> isArray (heap st) ?sv")
        case True
        have fe: "\<forall>x \<in> set (elems (heap st) ?sv). fit opts L x"
        proof (cases "clone opts")
          case False
          then show ?thesis by (simp add: fit_def)
        next
          case cl: True
          from True obtain b xs where b: "?sv = Ref b"
            and l: "lookup (heap st) b = Some (Arr xs)"
            by (cases ?sv) (auto split: option.splits obj.splits)
          from fs cl b have "b < L" by (simp add: fit_def)
          from originals_array [OF s cl this l] b l show ?thesis
            by (simp add: fit_def list_all_iff)
        qed
        from arrays_return [OF O B s fe m, of ?tv] obtain A st1 where
          r: "mergeArrays n opts st ?tv ?sv = Some (Inr (Ref A, st1))"
          and a: "after opts st st1"
          by blast
        have "mergeKey n opts st (Ref N) (Ref S) k d =
            Some (Inr (writeProp st1 (Ref N) k (Ref A)))"
          using mk no True r by simp
        with a show ?thesis by (intro fin [of st1 "Ref A"]) simp_all
      next
        case na: False
        show ?thesis
        proof (cases "?sv = Undefined")
          case True
          with mk no na have "mergeKey n opts st (Ref N) (Ref S) k d = Some (Inr st)"
            by simp
          then show ?thesis by simp
        next
          case False
          with mk no na have "mergeKey n opts st (Ref N) (Ref S) k d =
              Some (Inr (writeProp st (Ref N) k ?sv))"
            by simp
          then show ?thesis by (intro fin [of st ?sv]) simp_all
        qed
      qed
    qed
  qed
qed

lemma keys_return:
  assumes O: "objectsReturn n opts L" and B: "builtIn opts"
    and c: "clone opts \<longrightarrow> N \<noteq> S \<and> refsBelow L (PlainObj sp)"
  shows "sound opts L st \<Longrightarrow> isPlainObject (heap st) (Ref N) \<Longrightarrow>
     isPlainObject (heap st) (Ref S) \<Longrightarrow>
     (clone opts \<longrightarrow> lookup (heap st) S = Some (PlainObj sp)) \<Longrightarrow>
     (clone opts \<longrightarrow> L \<le> N \<or> N \<in> vis st) \<Longrightarrow> card (pending L st) < n \<Longrightarrow>
     \<exists>st'. mergeKeys n opts st (Ref N) (Ref S) ks d = Some (Inr st') \<and>
       afterExcept opts N st st'"
proof (induction ks arbitrary: st)
  case Nil
  show ?case by simp
next
  case (Cons k ks)
  from Cons.prems(3) obtain sp' where S: "lookup (heap st) S = Some (PlainObj sp')"
    by (auto split: option.splits obj.splits)
  have c': "clone opts \<longrightarrow> refsBelow L (PlainObj sp')"
    using c Cons.prems(4) S by auto
  from key_return [OF O B Cons.prems(1,2) S c' Cons.prems(6), of k d] obtain st1 where
    m: "mergeKey n opts st (Ref N) (Ref S) k d = Some (Inr st1)"
    and a: "afterExcept opts N st st1"
    by blast
  from a have e: "extends st st1" and v: "vis st \<subseteq> vis st1"
    by (simp_all add: afterExcept_def)
  note s1 = sound_afterExcept [OF Cons.prems(1) a Cons.prems(5)]
  from Cons.prems(2) have Nl: "N < length (heap st)"
    by (auto simp: lookup_def split: if_splits)
  from S have Sl: "S < length (heap st)" by (rule lookup_valid)
  from extends_plain [OF e Nl] Cons.prems(2) have N1: "isPlainObject (heap st1) (Ref N)"
    by blast
  from extends_plain [OF e Sl] Cons.prems(3) have S1: "isPlainObject (heap st1) (Ref S)"
    by blast
  have l1: "clone opts \<longrightarrow> lookup (heap st1) S = Some (PlainObj sp)"
  proof
    assume cl: "clone opts"
    with a have "frameExcept N st st1" by (simp add: afterExcept_def)
    with c cl Sl have "lookup (heap st1) S = lookup (heap st) S"
      by (simp add: frameExcept_def)
    with Cons.prems(4) cl show "lookup (heap st1) S = Some (PlainObj sp)" by simp
  qed
  from Cons.prems(5) v have w1: "clone opts \<longrightarrow> L \<le> N \<or> N \<in> vis st1" by auto
  from card_after [OF Cons.prems(1) a] Cons.prems(6) have c1: "card (pending L st1) < n"
    by simp
  from Cons.IH [OF s1 N1 S1 l1 w1 c1] obtain st' where
    m': "mergeKeys n opts st1 (Ref N) (Ref S) ks d = Some (Inr st')"
    and a': "afterExcept opts N st1 st'"
    by blast
  have "mergeKeys n opts st (Ref N) (Ref S) (k # ks) d = Some (Inr st')"
    using m m' by simp
  with afterExcept_trans [OF a a'] show ?case by blast
qed

lemma plain_source_return:
  assumes O: "objectsReturn n opts L" and B: "builtIn opts"
    and s: "sound opts L st" and N: "isPlainObject (heap st) (Ref N)"
    and S: "isPlainObject (heap st) (Ref S)" and f: "fit opts L (Ref S)"
    and w: "clone opts \<longrightarrow> L \<le> N \<or> N \<in> vis st"
    and m: "card (pending L st) \<le> n"
  shows "\<exists>st'. mergeSource n opts st (Ref N) (Ref S) d = Some (Inr (Ref N, st')) \<and>
           afterExcept opts N st st'"
proof (cases "S \<in> vis st")
  case True
  then have "mergeSource n opts st (Ref N) (Ref S) d = Some (Inr (Ref N, st))"
    by (simp add: mergeSource.simps vis_def)
  then show ?thesis by simp
next
  case False
  let ?st2 = "st\<lparr>visited := (S, Ref N) # visited st\<rparr>"
  from S obtain sp where l: "lookup (heap st) S = Some (PlainObj sp)"
    by (auto split: option.splits obj.splits)
  have SL: "S < L"
  proof (cases "clone opts")
    case True
    with f show ?thesis by (simp add: fit_def)
  next
    case False
    with s S show ?thesis by (simp add: sound_def plainBelow_def)
  qed
  with S False have "S \<in> pending L st" by (simp add: pending_def)
  from pending_mark [OF this, of "Ref N"] m have c2: "card (pending L ?st2) < n"
    by simp
  have a2: "after opts st ?st2" by (rule after_mark)
  note s2 = sound_after [OF s a2]
  have c: "clone opts \<longrightarrow> N \<noteq> S \<and> refsBelow L (PlainObj sp)"
  proof
    assume cl: "clone opts"
    from originals_plain [OF s cl SL False l] have "refsBelow L (PlainObj sp)" .
    moreover from w cl SL False have "N \<noteq> S" by auto
    ultimately show "N \<noteq> S \<and> refsBelow L (PlainObj sp)" by simp
  qed
  have w2: "clone opts \<longrightarrow> L \<le> N \<or> N \<in> vis ?st2"
    using w by (auto simp: vis_def)
  from keys_return [OF O B c, of ?st2 "keysOf (heap st) (Ref N) (Ref S)" d] s2 N S l w2 c2
  obtain st' where
    k: "mergeKeys n opts ?st2 (Ref N) (Ref S) (keysOf (heap st) (Ref N) (Ref S)) d =
          Some (Inr st')"
    and a': "afterExcept opts N ?st2 st'"
    by auto
  have "\<not> isArray (heap st) (Ref N)"
    using N by (auto split: option.splits obj.splits)
  then have "mergeSource n opts st (Ref N) (Ref S) d = Some (Inr (Ref N, st'))"
    using False N S k by (simp add: mergeSource.simps vis_def)
  with afterExcept_trans [OF after_afterExcept [OF a2] a'] show ?thesis by blast
qed

lemma objectsReturn_Suc:
  assumes O: "objectsReturn n opts L" and B: "builtIn opts"
  shows "objectsReturn (Suc n) opts L"
  unfolding objectsReturn_def
proof (intro allI impI)
  fix st target source d
  assume s: "sound opts L st" and t: "isPlainObject (heap st) target"
    and p: "isPlainObject (heap st) source" and f: "fit opts L source"
    and c: "card (pending L st) < Suc n"
  from t obtain T where T: "target = Ref T" by (cases target) auto
  from p obtain S where S: "source = Ref S" by (cases source) auto
  from s have L: "L \<le> length (heap st)" by (simp add: sound_def)
  show "\<exists>v st'. mergeObjects (Suc n) opts st target [source] d = Some (Inr (v, st')) \<and>
      after opts st st'"
  proof (cases "maxDepth opts \<le> int d")
    case True
    then have "mergeObjects (Suc n) opts st target [source] d =
        Some (Inr (target, st\<lparr>warnings := Suc (warnings st)\<rparr>))"
      by simp
    with after_warn show ?thesis by blast
  next
    case dp: False
    obtain r st1 where cl: "cloneTarget opts st target = (r, st1)"
      by (cases "cloneTarget opts st target")
    have run: "mergeObjects (Suc n) opts st target [source] d =
        andThen (mergeSource n opts st1 r source d) (\<lambda>(r', st2). Some (Inr (r', st2)))"
      using dp t cl by (auto simp: split_def)
    from t have na: "\<not> isArray (heap st) target"
      by (auto simp: T split: option.splits obj.splits)
    show ?thesis
    proof (cases "clone opts")
      case True
      let ?N = "length (heap st)"
      from cl True na have al: "alloc st (PlainObj (props (heap st) target)) = (r, st1)"
        by (simp add: cloneTarget_def)
      note fa = frame_alloc [OF al]
      from after_alloc [OF al] True have a1: "after opts st st1" by simp
      note s1 = sound_after [OF s a1]
      from fa have r: "r = Ref ?N" and N1: "isPlainObject (heap st1) (Ref ?N)"
        by simp_all
      from a1 have e1: "extends st st1" by (simp add: after_def)
      from p S have "S < length (heap st)" by (auto simp: lookup_def split: if_splits)
      from extends_plain [OF e1 this] p S have S1: "isPlainObject (heap st1) (Ref S)"
        by simp
      from card_after [OF s after_afterExcept [OF a1]] c
      have c1: "card (pending L st1) \<le> n" by simp
      from L have w: "clone opts \<longrightarrow> L \<le> ?N \<or> ?N \<in> vis st1" by simp
      from plain_source_return [OF O B s1 N1 S1 f [unfolded S] w c1, of d] obtain st' where
        m: "mergeSource n opts st1 (Ref ?N) (Ref S) d = Some (Inr (Ref ?N, st'))"
        and a': "afterExcept opts ?N st1 st'"
        by blast
      have "mergeObjects (Suc n) opts st target [source] d = Some (Inr (Ref ?N, st'))"
        using run m r S by simp
      moreover have "after opts st st'"
      proof -
        from a1 a' True have f1: "frame st st1" and f2: "frameExcept ?N st1 st'"
          and e: "extends st st'" and v: "vis st \<subseteq> vis st'"
          by (auto simp: after_def afterExcept_def intro: extends_trans)
        have "frame st st'"
          unfolding frame_def
        proof (intro allI impI)
          fix x
          assume x: "x < ?N"
          with f2 fa have "lookup (heap st') x = lookup (heap st1) x"
            by (simp add: frameExcept_def)
          with f1 x show "lookup (heap st') x = lookup (heap st) x"
            by (simp add: frame_def)
        qed
        with True e v show ?thesis by (simp add: after_def)
      qed
      ultimately show ?thesis by blast
    next
      case False
      with cl have r: "r = target" and st1: "st1 = st"
        by (simp_all add: cloneTarget_def)
      from c have c1: "card (pending L st) \<le> n" by simp
      from False have w: "clone opts \<longrightarrow> L \<le> T \<or> T \<in> vis st" by simp
      from plain_source_return [OF O B s t [unfolded T] p [unfolded S] f [unfolded S] w c1, of d]
      obtain st' where
        m: "mergeSource n opts st (Ref T) (Ref S) d = Some (Inr (Ref T, st'))"
        and a': "afterExcept opts T st st'"
        by blast
      have "mergeObjects (Suc n) opts st target [source] d = Some (Inr (Ref T, st'))"
        using run m r st1 S T by simp
      moreover from a' False have "after opts st st'"
        by (simp add: after_def afterExcept_def)
      ultimately show ?thesis by blast
    qed
  qed
qed

lemma objectsReturn_all:
  assumes "builtIn opts"
  shows "objectsReturn n opts L"
proof (induction n)
  case 0
  show ?case by (simp add: objectsReturn_def)
next
  case (Suc n)
  from this assms show ?case by (rule objectsReturn_Suc)
qed

lemma source_step:
  assumes O: "objectsReturn n opts L" and B: "builtIn opts"
    and s: "sound opts L st" and f: "fit opts L source"
    and w: "writable opts L st result" and m: "card (pending L st) < n"
  shows "\<exists>r. mergeSource n opts st result source d = Some r \<and>
      (\<not> primitive source \<longrightarrow> (\<exists>res st'. r = Inr (res, st'))) \<and>
      (\<forall>res st'. r = Inr (res, st') \<longrightarrow>
         sound opts L st' \<and> card (pending L st') \<le> card (pending L st) \<and>
         writable opts L st' res)"
proof (cases source)
  case Undefined
  then have "mergeSource n opts st result source d = Some (Inr (result, st))"
    by (simp add: mergeSource.simps)
  with s w show ?thesis by simp
next
  case Null
  then have "mergeSource n opts st result source d = Some (Inr (result, st))"
    by (simp add: mergeSource.simps)
  with s w show ?thesis by simp
next
  case (Num x)
  then have "mergeSource n opts st result source d = Some (Inl TypeError)"
    by (simp add: mergeSource.simps)
  with Num show ?thesis by simp
next
  case (Str x)
  then have "mergeSource n opts st result source d = Some (Inl TypeError)"
    by (simp add: mergeSource.simps)
  with Str show ?thesis by simp
next
  case (Bool x)
  then have "mergeSource n opts st result source d = Some (Inl TypeError)"
    by (simp add: mergeSource.simps)
  with Bool show ?thesis by simp
next
  case (Ref b)
  have fin: ?thesis
    if "mergeSource n opts st result source d = Some (Inr (res, st'))"
      and "sound opts L st'" and "card (pending L st') \<le> card (pending L st)"
      and "writable opts L st' res" for res st'
    using that by simp
  show ?thesis
  proof (cases "b \<in> vis st")
    case True
    with Ref have "mergeSource n opts st result source d = Some (Inr (result, st))"
      by (simp add: mergeSource.simps vis_def)
    with s w show ?thesis by (intro fin [of result st]) simp_all
  next
    case nv: False
    let ?st2 = "st\<lparr>visited := (b, result) # visited st\<rparr>"
    have a2: "after opts st ?st2" by (rule after_mark)
    note s2 = sound_after [OF s a2]
    from card_after [OF s after_afterExcept [OF a2]]
    have c2: "card (pending L ?st2) \<le> card (pending L st)" .
    have run: "mergeSource n opts st result source d =
        (if isArray (heap st) result \<and> isArray (heap st) source then
           mergeArrays n opts ?st2 result source
         else if isPlainObject (heap st) result \<and> isPlainObject (heap st) source then
           andThen (mergeKeys n opts ?st2 result source (keysOf (heap st) result source) d)
             (\<lambda>st3. Some (Inr (result, st3)))
         else Some (Inr (source, ?st2)))"
      using Ref nv by (simp add: mergeSource.simps vis_def)
    show ?thesis
    proof (cases "isArray (heap st) result \<and> isArray (heap st) source")
      case True
      have fe: "\<forall>x \<in> set (elems (heap ?st2) source). fit opts L x"
      proof (cases "clone opts")
        case False
        then show ?thesis by (simp add: fit_def)
      next
        case cl: True
        from True Ref obtain xs where l: "lookup (heap st) b = Some (Arr xs)"
          by (auto split: option.splits obj.splits)
        from f cl Ref have "b < L" by (simp add: fit_def)
        from originals_array [OF s cl this l] Ref l show ?thesis
          by (simp add: fit_def list_all_iff)
      qed
      from c2 m have c2': "card (pending L ?st2) < n" by simp
      from arrays_return [OF O B s2 fe c2', of result] obtain A st' where
        r: "mergeArrays n opts ?st2 result source = Some (Inr (Ref A, st'))"
        and A: "length (heap ?st2) \<le> A" and a: "after opts ?st2 st'"
        by blast
      from s have "L \<le> length (heap st)" by (simp add: sound_def)
      with A have "writable opts L st' (Ref A)" by (simp add: writable_def)
      moreover from card_after [OF s2 after_afterExcept [OF a]] c2
      have "card (pending L st') \<le> card (pending L st)" by simp
      moreover have "mergeSource n opts st result source d = Some (Inr (Ref A, st'))"
        using run True r by simp
      ultimately show ?thesis
        using sound_after [OF s2 a] by (intro fin [of "Ref A" st']) simp_all
    next
      case na: False
      show ?thesis
      proof (cases "isPlainObject (heap st) result \<and> isPlainObject (heap st) source")
        case True
        then obtain N where N: "result = Ref N" by (cases result) auto
        from w N have w': "clone opts \<longrightarrow> L \<le> N \<or> N \<in> vis st"
          by (simp add: writable_def)
        from m have m': "card (pending L st) \<le> n" by simp
        from plain_source_return [OF O B s _ _ f [unfolded Ref] w' m', of d] True N Ref
        obtain st' where
          r: "mergeSource n opts st result source d = Some (Inr (result, st'))"
          and a: "afterExcept opts N st st'"
          by auto
        from a have "vis st \<subseteq> vis st'" by (simp add: afterExcept_def)
        with w N have "writable opts L st' result" by (auto simp: writable_def)
        with r sound_afterExcept [OF s a w'] card_after [OF s a] show ?thesis
          by (intro fin [of result st']) simp_all
      next
        case False
        with run na have "mergeSource n opts st result source d = Some (Inr (source, ?st2))"
          by simp
        moreover have "writable opts L ?st2 source"
          using Ref by (simp add: writable_def vis_def)
        ultimately show ?thesis
          using s2 c2 by (intro fin [of source ?st2]) simp_all
      qed
    qed
  qed
qed

lemma sources_return:
  assumes O: "objectsReturn n opts L" and B: "builtIn opts"
  shows "sound opts L st \<Longrightarrow> \<forall>s \<in> set sources. fit opts L s \<Longrightarrow>
     writable opts L st result \<Longrightarrow> card (pending L st) < n \<Longrightarrow>
     \<exists>r. mergeSources n opts st result sources d = Some r \<and>
       (list_all (\<lambda>s. \<not> primitive s) sources \<longrightarrow> (\<exists>res st'. r = Inr (res, st')))"
proof (induction sources arbitrary: st result)
  case Nil
  show ?case by simp
next
  case (Cons source rest)
  from Cons.prems(2) have f: "fit opts L source" and fr: "\<forall>s \<in> set rest. fit opts L s"
    by simp_all
  from source_step [OF O B Cons.prems(1) f Cons.prems(3,4), of d] obtain r where
    r: "mergeSource n opts st result source d = Some r"
    and p: "\<not> primitive source \<longrightarrow> (\<exists>res st'. r = Inr (res, st'))"
    and q: "\<forall>res st'. r = Inr (res, st') \<longrightarrow>
         sound opts L st' \<and> card (pending L st') \<le> card (pending L st) \<and>
         writable opts L st' res"
    by blast
  show ?case
  proof (cases r)
    case (Inl e)
    with r have "mergeSources n opts st result (source # rest) d = Some (Inl e)"
      by simp
    with Inl p show ?thesis by auto
  next
    case (Inr x)
    obtain res st1 where x: "x = (res, st1)" by (cases x)
    with Inr q Cons.prems(4) have s1: "sound opts L st1" and c1: "card (pending L st1) < n"
      and w1: "writable opts L st1 res"
      by auto
    from Cons.IH [OF s1 fr w1 c1] obtain r' where
      r': "mergeSources n opts st1 res rest d = Some r'"
      and p': "list_all (\<lambda>s. \<not> primitive s) rest \<longrightarrow> (\<exists>res st'. r' = Inr (res, st'))"
      by blast
    have "mergeSources n opts st result (source # rest) d = Some r'"
      using r Inr x r' by simp
    with p' show ?thesis by auto
  qed
qed

lemma objects_return:
  assumes B: "builtIn opts" and s: "sound opts L st"
    and f: "\<forall>s \<in> set sources. fit opts L s" and c: "card (pending L st) < n"
  shows "\<exists>r. mergeObjects (Suc n) opts st target sources d = Some r \<and>
       (list_all (\<lambda>s. \<not> primitive s) sources \<longrightarrow> (\<exists>res st'. r = Inr (res, st')))"
proof (cases "maxDepth opts \<le> int d")
  case True
  then show ?thesis by simp
next
  case dp: False
  show ?thesis
  proof (cases "\<not> isPlainObject (heap st) target \<and> \<not> isArray (heap st) target")
    case True
    with dp have "mergeObjects (Suc n) opts st target sources d =
        Some (Inr (leafMerge opts st target sources))"
      by simp
    then show ?thesis by (cases "leafMerge opts st target sources") simp
  next
    case False
    obtain r st1 where cl: "cloneTarget opts st target = (r, st1)"
      by (cases "cloneTarget opts st target")
    from dp False cl have run: "mergeObjects (Suc n) opts st target sources d =
        mergeSources n opts st1 r sources d"
      by auto
    from s have L: "L \<le> length (heap st)" by (simp add: sound_def)
    have "after opts st st1 \<and> writable opts L st1 r"
    proof (cases "clone opts")
      case True
      with cl obtain ob where al: "alloc st ob = (r, st1)"
        by (auto simp: cloneTarget_def split: if_splits)
      from after_alloc [OF al] True frame_alloc [OF al] L show ?thesis
        by (simp add: writable_def)
    next
      case False
      with cl show ?thesis by (simp add: cloneTarget_def writable_def)
    qed
    then have a: "after opts st st1" and w: "writable opts L st1 r" by simp_all
    from card_after [OF s after_afterExcept [OF a]] c have c1: "card (pending L st1) < n"
      by simp
    from sources_return [OF objectsReturn_all [OF B] B sound_after [OF s a] f w c1, of d] run
    show ?thesis by simp
  qed
qed

lemma card_pending_le: "card (pending L st) \<le> L"
proof -
  have "pending L st \<subseteq> {..<L}" by (auto simp: pending_def)
  then have "card (pending L st) \<le> card {..<L}" by (intro card_mono) simp_all
  then show ?thesis by simp
qed

lemma below_validIn: "below (length h) v = validIn h v"
  by (cases v) simp_all

lemma sound_wellFormed:
  assumes "wellFormed (heap st)"
  shows "sound opts (length (heap st)) st"
proof (cases "clone opts")
  case True
  have "originals (length (heap st)) st"
    unfolding originals_def
  proof (intro allI impI)
    fix a ob
    assume "a < length (heap st)" and "lookup (heap st) a = Some ob"
    then have "ob \<in> set (heap st)"
      by (auto simp: lookup_def split: if_splits dest: nth_mem)
    moreover from assms have "\<forall>ob \<in> set (heap st). refsBelow (length (heap st)) ob"
      by (simp add: wellFormed_def list_all_iff)
    ultimately show "refsBelow (length (heap st)) ob" by blast
  qed
  with True show ?thesis by (simp add: sound_def)
next
  case False
  have "plainBelow (length (heap st)) st"
    by (auto simp: plainBelow_def lookup_def split: if_splits)
  with False show ?thesis by (simp add: sound_def)
qed

lemma wellFormed_elems:
  assumes "wellFormed h" and "lookup h b = Some (Arr xs)"
  shows "list_all (validIn h) xs"
proof -
  from assms(2) have "Arr xs \<in> set h"
    by (auto simp: lookup_def split: if_splits dest: nth_mem)
  moreover from assms(1) have "\<forall>ob \<in> set h. refsBelow (length h) ob"
    by (simp add: wellFormed_def list_all_iff)
  ultimately have "refsBelow (length h) (Arr xs)" by blast
  then show ?thesis by (simp add: below_validIn list_all_iff)
qed

section \<open>The chain of states of a positional merge\<close>

lemma mergeElems_no_pair:
  "\<forall>p \<in> set (zip ts ss).
      \<not> (isPlainObject (heap st) (fst p) \<and> isPlainObject (heap st) (snd p)) \<Longrightarrow>
   mergeElems n opts st ts ss = Some (Inr (ss @ drop (length ss) ts, st))"
  by (induction ts ss rule: list_induct2') auto

lemma elems_chain:
  "mergeElems n opts st ts ss = Some (Inr (ms, st')) \<Longrightarrow>
   \<exists>sts. positional n opts ts ss ms sts \<and> sts ! 0 = st \<and> sts ! length ms = st'"
proof (induction ts ss arbitrary: st ms rule: list_induct2')
  case 1
  then show ?case
    by (intro exI [of _ "[st]"]) (simp add: positional_def)
next
  case (2 t ts)
  then have "ms = t # ts" "st' = st" by simp_all
  then show ?case
    by (intro exI [of _ "replicate (Suc (Suc (length ts))) st"])
       (simp add: positional_def del: replicate.simps replicate_Suc)
next
  case (3 s ss)
  then have "ms = s # ss" "st' = st" by simp_all
  then show ?case
    by (intro exI [of _ "replicate (Suc (Suc (length ss))) st"])
       (simp add: positional_def del: replicate.simps replicate_Suc)
next
  case (4 t ts s ss)
  show ?case
  proof (cases "isPlainObject (heap st) t \<and> isPlainObject (heap st) s")
    case True
    with "4.prems" obtain v st1 ms' where
      a: "mergeObjects n opts st t [s] 0 = Some (Inr (v, st1))"
      and b: "mergeElems n opts st1 ts ss = Some (Inr (ms', st'))"
      and c: "ms = v # ms'"
      by (auto simp: andThen_returns)
    from "4.IH" [OF b] obtain sts where
      p: "positional n opts ts ss ms' sts" and h: "sts ! 0 = st1"
      and l: "sts ! length ms' = st'"
      by blast
    have "positional n opts (t # ts) (s # ss) ms (st # sts)"
      unfolding positional_def
    proof (intro conjI allI impI)
      from p c show "length ms = max (length (t # ts)) (length (s # ss))"
        by (simp add: positional_def)
      from p c show "length (st # sts) = Suc (length ms)"
        by (simp add: positional_def)
    next
      fix i
      assume i: "i < length ms"
      show "if i < length (t # ts) \<and> i < length (s # ss) then
           (if isPlainObject (heap ((st # sts) ! i)) ((t # ts) ! i) \<and>
               isPlainObject (heap ((st # sts) ! i)) ((s # ss) ! i)
            then mergeObjects n opts ((st # sts) ! i) ((t # ts) ! i) [(s # ss) ! i] 0 =
                   Some (Inr (ms ! i, (st # sts) ! Suc i))
            else ms ! i = (s # ss) ! i \<and> (st # sts) ! Suc i = (st # sts) ! i)
         else if i < length (t # ts) then
           ms ! i = (t # ts) ! i \<and> (st # sts) ! Suc i = (st # sts) ! i
         else ms ! i = (s # ss) ! i \<and> (st # sts) ! Suc i = (st # sts) ! i"
      proof (cases i)
        case 0
        with True a c h show ?thesis by simp
      next
        case (Suc j)
        with i c have "j < length ms'" by simp
        with p have "if j < length ts \<and> j < length ss then
           (if isPlainObject (heap (sts ! j)) (ts ! j) \<and> isPlainObject (heap (sts ! j)) (ss ! j)
            then mergeObjects n opts (sts ! j) (ts ! j) [ss ! j] 0 =
                   Some (Inr (ms' ! j, sts ! Suc j))
            else ms' ! j = ss ! j \<and> sts ! Suc j = sts ! j)
         else if j < length ts then ms' ! j = ts ! j \<and> sts ! Suc j = sts ! j
         else ms' ! j = ss ! j \<and> sts ! Suc j = sts ! j"
          by (simp add: positional_def)
        with Suc c show ?thesis by simp
      qed
    qed
    with c l show ?thesis
      by (intro exI [of _ "st # sts"]) simp
  next
    case False
    with "4.prems" obtain ms' where
      b: "mergeElems n opts st ts ss = Some (Inr (ms', st'))"
      and c: "ms = s # ms'"
      by (auto simp: andThen_returns)
    from "4.IH" [OF b] obtain sts where
      p: "positional n opts ts ss ms' sts" and h: "sts ! 0 = st"
      and l: "sts ! length ms' = st'"
      by blast
    have "positional n opts (t # ts) (s # ss) ms (st # sts)"
      unfolding positional_def
    proof (intro conjI allI impI)
      from p c show "length ms = max (length (t # ts)) (length (s # ss))"
        by (simp add: positional_def)
      from p c show "length (st # sts) = Suc (length ms)"
        by (simp add: positional_def)
    next
      fix i
      assume i: "i < length ms"
      show "if i < length (t # ts) \<and> i < length (s # ss) then
           (if isPlainObject (heap ((st # sts) ! i)) ((t # ts) ! i) \<and>
               isPlainObject (heap ((st # sts) ! i)) ((s # ss) ! i)
            then mergeObjects n opts ((st # sts) ! i) ((t # ts) ! i) [(s # ss) ! i] 0 =
                   Some (Inr (ms ! i, (st # sts) ! Suc i))
            else ms ! i = (s # ss) ! i \<and> (st # sts) ! Suc i = (st # sts) ! i)
         else if i < length (t # ts) then
           ms ! i = (t # ts) ! i \<and> (st # sts) ! Suc i = (st # sts) ! i
         else ms ! i = (s # ss) ! i \<and> (st # sts) ! Suc i = (st # sts) ! i"
      proof (cases i)
        case 0
        with False c h show ?thesis by auto
      next
        case (Suc j)
        with i c have "j < length ms'" by simp
        with p have "if j < length ts \<and> j < length ss then
           (if isPlainObject (heap (sts ! j)) (ts ! j) \<and> isPlainObject (heap (sts ! j)) (ss ! j)
            then mergeObjects n opts (sts ! j) (ts ! j) [ss ! j] 0 =
                   Some (Inr (ms' ! j, sts ! Suc j))
            else ms' ! j = ss ! j \<and> sts ! Suc j = sts ! j)
         else if j < length ts then ms' ! j = ts ! j \<and> sts ! Suc j = sts ! j
         else ms' ! j = ss ! j \<and> sts ! Suc j = sts ! j"
          by (simp add: positional_def)
        with Suc c show ?thesis by simp
      qed
    qed
    with c l show ?thesis
      by (intro exI [of _ "st # sts"]) simp
  qed
qed

section \<open>A source merged into an empty mapping\<close>

text \<open>
  Without \<^verbatim>\<open>customMerge\<close>, a key that the result does not hold is copied from the source when
  the source defines it (line 256), whatever the value: a reference is copied, not followed.
\<close>

lemma propOf_assign: "propOf (assign rs k' x) k = (if k = k' then x else propOf rs k)"
  by (simp add: propOf_def map_of_assign)

lemma propOf_absent: "k \<notin> fst ` set rs \<Longrightarrow> propOf rs k = Undefined"
  by (simp add: propOf_def map_of_eq_None_iff [THEN iffD2])

lemma propOf_present: "propOf ps k \<noteq> Undefined \<Longrightarrow> k \<in> fst ` set ps"
  using propOf_absent by blast

lemma set_assign: "fst ` set (assign rs k x) = insert k (fst ` set rs)"
proof -
  have "map_of (assign rs k x) = (map_of rs)(k \<mapsto> x)"
    by (rule ext) (simp add: map_of_assign)
  then have "dom (map_of (assign rs k x)) = insert k (dom (map_of rs))" by simp
  then show ?thesis by (simp only: dom_map_of_conv_image_fst)
qed

lemma mergeKey_fresh:
  assumes cm: "customMerge opts = None"
    and r: "lookup (heap st) r = Some (PlainObj rs)"
    and k: "k \<notin> fst ` set rs"
  shows "mergeKey n opts st (Ref r) source k d =
     (if getProp (heap st) source k \<noteq> Undefined
      then Some (Inr (writeProp st (Ref r) k (getProp (heap st) source k)))
      else Some (Inr st))"
proof -
  from r k have u: "getProp (heap st) (Ref r) k = Undefined"
    by (simp add: getProp_propOf propOf_absent)
  have c: "customDecision opts k (getProp (heap st) (Ref r) k) (getProp (heap st) source k) = None"
    using cm by (simp add: customDecision_def)
  show ?thesis
    by (subst mergeKey_others [OF c]) (simp_all add: u)
qed

lemma keys_copy:
  assumes cm: "customMerge opts = None" and ra: "r \<noteq> a"
  shows "lookup (heap st) r = Some (PlainObj rs) \<Longrightarrow>
    lookup (heap st) a = Some (PlainObj ps) \<Longrightarrow>
    distinct ks \<Longrightarrow> set ks \<inter> fst ` set rs = {} \<Longrightarrow>
    \<exists>st' rs'. mergeKeys n opts st (Ref r) (Ref a) ks d = Some (Inr st') \<and>
      lookup (heap st') r = Some (PlainObj rs') \<and>
      lookup (heap st') a = Some (PlainObj ps) \<and>
      length (heap st') = length (heap st) \<and>
      (\<forall>k. propOf rs' k =
         (if k \<in> set ks \<and> propOf ps k \<noteq> Undefined then propOf ps k else propOf rs k))"
proof (induction ks arbitrary: st rs)
  case Nil
  then show ?case by simp
next
  case (Cons k ks)
  from Cons.prems have k: "k \<notin> fst ` set rs" and kk: "k \<notin> set ks" and dk: "distinct ks"
    and dj: "set ks \<inter> fst ` set rs = {}"
    by auto
  note r = Cons.prems(1) and a = Cons.prems(2)
  have sv: "getProp (heap st) (Ref a) k = propOf ps k"
    using a by (simp add: getProp_propOf)
  show ?case
  proof (cases "propOf ps k = Undefined")
    case True
    then have step: "mergeKey n opts st (Ref r) (Ref a) k d = Some (Inr st)"
      by (simp add: mergeKey_fresh [OF cm r k] sv)
    from Cons.IH [OF r a dk dj] obtain st' rs' where
      m: "mergeKeys n opts st (Ref r) (Ref a) ks d = Some (Inr st')"
      and r': "lookup (heap st') r = Some (PlainObj rs')"
      and a': "lookup (heap st') a = Some (PlainObj ps)"
      and l: "length (heap st') = length (heap st)"
      and p: "\<forall>k. propOf rs' k =
         (if k \<in> set ks \<and> propOf ps k \<noteq> Undefined then propOf ps k else propOf rs k)"
      by blast
    from p True have "\<forall>k'. propOf rs' k' =
         (if k' \<in> set (k # ks) \<and> propOf ps k' \<noteq> Undefined then propOf ps k' else propOf rs k')"
      by auto
    with m r' a' l step show ?thesis by simp
  next
    case False
    let ?st1 = "writeProp st (Ref r) k (propOf ps k)"
    from False have step: "mergeKey n opts st (Ref r) (Ref a) k d = Some (Inr ?st1)"
      by (simp add: mergeKey_fresh [OF cm r k] sv)
    have r1: "lookup (heap ?st1) r = Some (PlainObj (assign rs k (propOf ps k)))"
      using lookup_setProp [OF r, of k "propOf ps k" r]
      by (simp add: writeProp_def del: setProp.simps)
    have a1: "lookup (heap ?st1) a = Some (PlainObj ps)"
      using lookup_setProp [OF r, of k "propOf ps k" a] a ra
      by (simp add: writeProp_def del: setProp.simps)
    have l1: "length (heap ?st1) = length (heap st)"
      by (simp add: writeProp_def del: setProp.simps)
    from dj kk have dj1: "set ks \<inter> fst ` set (assign rs k (propOf ps k)) = {}"
      by (simp add: set_assign)
    from Cons.IH [OF r1 a1 dk dj1] obtain st' rs' where
      m: "mergeKeys n opts ?st1 (Ref r) (Ref a) ks d = Some (Inr st')"
      and r': "lookup (heap st') r = Some (PlainObj rs')"
      and a': "lookup (heap st') a = Some (PlainObj ps)"
      and l: "length (heap st') = length (heap ?st1)"
      and p: "\<forall>k'. propOf rs' k' =
         (if k' \<in> set ks \<and> propOf ps k' \<noteq> Undefined then propOf ps k'
          else propOf (assign rs k (propOf ps k)) k')"
      by blast
    from p kk False have "\<forall>k'. propOf rs' k' =
         (if k' \<in> set (k # ks) \<and> propOf ps k' \<noteq> Undefined then propOf ps k' else propOf rs k')"
      by (auto simp: propOf_assign)
    with m r' a' l l1 step show ?thesis by simp
  qed
qed

lemma self_unresolved:
  assumes cm: "customMerge opts = None" and md: "0 < maxDepth opts"
    and t: "lookup h t = Some (PlainObj [])"
    and a: "lookup h a = Some (PlainObj ps)"
    and self: "propOf ps k = Ref a"
  shows "\<exists>r st'. mergeObjects (Suc n) opts (initial h) (Ref t) [Ref a] 0 = Some (Inr (Ref r, st')) \<and>
      getProp (heap st') (Ref r) k = Ref a \<and>
      lookup (heap st') a = Some (PlainObj ps) \<and>
      length (heap st') \<le> Suc (length h)"
proof -
  define st0 where "st0 = snd (cloneTarget opts (initial h) (Ref t))"
  define r where "r = (if clone opts then length h else t)"
  have ct: "cloneTarget opts (initial h) (Ref t) = (Ref r, st0)"
    using t by (simp add: st0_def r_def cloneTarget_def alloc_def)
  from t a self have ta: "t \<noteq> a" by (auto simp: propOf_def)
  from a have "a < length h" by (rule lookup_valid)
  with ta have ra: "r \<noteq> a" by (simp add: r_def)
  have r0: "lookup (heap st0) r = Some (PlainObj [])"
    using t by (simp add: st0_def r_def cloneTarget_def alloc_def lookup_append)
  have a0: "lookup (heap st0) a = Some (PlainObj ps)"
    using a \<open>a < length h\<close> by (simp add: st0_def cloneTarget_def alloc_def lookup_append t)
  have l0: "length (heap st0) \<le> Suc (length h)"
    by (simp add: st0_def cloneTarget_def alloc_def)
  have v0: "visited st0 = []"
    by (simp add: st0_def cloneTarget_def alloc_def initial_def)
  let ?st1 = "st0\<lparr>visited := (a, Ref r) # visited st0\<rparr>"
  let ?ks = "keysOf (heap ?st1) (Ref r) (Ref a)"
  have d: "distinct ?ks" by (simp add: keysOf_def distinct_keyOrder)
  from keys_copy [OF cm ra, of ?st1 "[]" ps ?ks n 0] r0 a0 d obtain st' rs' where
    m: "mergeKeys n opts ?st1 (Ref r) (Ref a) ?ks 0 = Some (Inr st')"
    and r': "lookup (heap st') r = Some (PlainObj rs')"
    and a': "lookup (heap st') a = Some (PlainObj ps)"
    and l: "length (heap st') = length (heap ?st1)"
    and p: "\<forall>k. propOf rs' k =
         (if k \<in> set ?ks \<and> propOf ps k \<noteq> Undefined then propOf ps k else propOf [] k)"
    by auto
  from self have "k \<in> fst ` set ps" by (intro propOf_present) simp
  then have "k \<in> set ?ks" using r0 a0 by (simp add: keysOf_def set_keyOrder)
  with p self have "propOf rs' k = Ref a" by simp
  with r' have g: "getProp (heap st') (Ref r) k = Ref a" by (simp add: getProp_propOf)
  have src: "mergeSource n opts st0 (Ref r) (Ref a) 0 = Some (Inr (Ref r, st'))"
    using r0 a0 v0 m by (simp add: mergeSource.simps)
  have "mergeObjects (Suc n) opts (initial h) (Ref t) [Ref a] 0 = Some (Inr (Ref r, st'))"
    using md t ct src by simp
  with g a' l l0 show ?thesis by auto
qed

section \<open>Ordinary heaps stay ordinary\<close>

text \<open>
  The keys written are those of line 227, the own keys of the result and of the source; a
  clone has the keys of its target.
\<close>

lemma ordinary_alloc:
  "ordinaryHeap (heap st) \<Longrightarrow> ordinaryObj ob \<Longrightarrow> alloc st ob = (r, st') \<Longrightarrow>
   ordinaryHeap (heap st')"
  by (auto simp: alloc_def ordinaryHeap_def)

lemma ordinary_lookup:
  "ordinaryHeap h \<Longrightarrow> lookup h a = Some ob \<Longrightarrow> ordinaryObj ob"
  by (auto simp: ordinaryHeap_def lookup_def list_all_iff split: if_splits)

lemma ordinary_props: "ordinaryHeap h \<Longrightarrow> k \<in> fst ` set (props h v) \<Longrightarrow> ordinaryKey k"
proof (cases v)
  case (Ref a)
  assume h: "ordinaryHeap h" and k: "k \<in> fst ` set (props h v)"
  show ?thesis
  proof (cases "lookup h a")
    case None
    with Ref k show ?thesis by simp
  next
    case (Some ob)
    from ordinary_lookup [OF h Some] Some Ref k show ?thesis
      by (cases ob) (auto simp: list_all_iff)
  qed
qed simp_all

lemma ordinary_keysOf:
  "ordinaryHeap h \<Longrightarrow> k \<in> set (keysOf h r s) \<Longrightarrow> ordinaryKey k"
  by (auto simp: keysOf_def set_keyOrder dest: ordinary_props)

lemma ordinary_write:
  assumes "ordinaryHeap (heap st)" and "ordinaryKey k"
  shows "ordinaryHeap (heap (writeProp st r k v))"
proof (cases r)
  case (Ref a)
  show ?thesis
  proof (cases "lookup (heap st) a")
    case None
    with Ref assms show ?thesis by (simp add: writeProp_def)
  next
    case (Some ob)
    show ?thesis
    proof (cases ob)
      case (PlainObj ps)
      from ordinary_lookup [OF assms(1) Some] PlainObj
      have "\<forall>k' \<in> fst ` set ps. ordinaryKey k'" by (auto simp: list_all_iff)
      with assms(2) have "\<forall>k' \<in> fst ` set (assign ps k v). ordinaryKey k'"
        by (simp add: set_assign)
      then have "ordinaryObj (PlainObj (assign ps k v))" by (auto simp: list_all_iff)
      with assms(1) have "list_all ordinaryObj ((heap st)[a := PlainObj (assign ps k v)])"
        by (auto simp: ordinaryHeap_def list_all_iff dest: set_update_subset_insert [THEN subsetD])
      with Ref Some PlainObj show ?thesis by (simp add: writeProp_def ordinaryHeap_def)
    qed (use Ref Some assms in \<open>simp_all add: writeProp_def\<close>)
  qed
qed (use assms in \<open>simp_all add: writeProp_def\<close>)

lemma ordinary_cloneTarget:
  "ordinaryHeap (heap st) \<Longrightarrow> cloneTarget opts st t = (r, st') \<Longrightarrow> ordinaryHeap (heap st')"
proof -
  assume h: "ordinaryHeap (heap st)" and c: "cloneTarget opts st t = (r, st')"
  have "ordinaryObj (PlainObj (props (heap st) t))"
    using ordinary_props [OF h, of _ t] by (auto simp: list_all_iff)
  with h c show ?thesis
    by (auto simp: cloneTarget_def split: if_splits dest: ordinary_alloc [rotated 2])
qed

lemma ordinary_mergeFunctions:
  "ordinaryHeap (heap st) \<Longrightarrow> mergeFunctions opts st f g src = (r, st') \<Longrightarrow>
   ordinaryHeap (heap st')"
  by (auto simp: mergeFunctions_def split: if_splits dest: ordinary_alloc [rotated 2])

lemma ordinary_leafMerge:
  "ordinaryHeap (heap st) \<Longrightarrow> leafMerge opts st t sources = (r, st') \<Longrightarrow>
   ordinaryHeap (heap st')"
  by (induction sources)
     (auto split: if_splits option.splits dest: ordinary_mergeFunctions)

lemma ordinary_visitedSet:
  "ordinaryHeap (heap st) \<Longrightarrow> visitedSet st src r = Inr st' \<Longrightarrow> ordinaryHeap (heap st')"
  by (cases src) auto

lemma objectsOrdinaryD:
  "objectsOrdinary n opts \<Longrightarrow> ordinaryHeap (heap st) \<Longrightarrow>
   mergeObjects n opts st target sources depth = Some (Inr (v, st')) \<Longrightarrow>
   ordinaryHeap (heap st')"
  unfolding objectsOrdinary_def by blast

lemma mergeElems_ordinary:
  assumes O: "objectsOrdinary n opts"
  shows "ordinaryHeap (heap st) \<Longrightarrow> mergeElems n opts st ts ss = Some (Inr (vs, st')) \<Longrightarrow>
         ordinaryHeap (heap st')"
proof (induction ts ss arbitrary: st vs rule: list_induct2')
  case (4 t ts s ss)
  show ?case
  proof (cases "isPlainObject (heap st) t \<and> isPlainObject (heap st) s")
    case True
    with "4.prems" obtain v st1 ms where
      a: "mergeObjects n opts st t [s] 0 = Some (Inr (v, st1))" and
      b: "mergeElems n opts st1 ts ss = Some (Inr (ms, st'))"
      by (auto simp: andThen_returns)
    from objectsOrdinaryD [OF O "4.prems"(1) a] "4.IH" b show ?thesis by blast
  next
    case False
    with "4.prems" "4.IH" show ?thesis by (auto simp: andThen_returns)
  qed
qed auto

lemma mergeArrays_ordinary:
  assumes O: "objectsOrdinary n opts" and h: "ordinaryHeap (heap st)"
    and m: "mergeArrays n opts st target source = Some (Inr (v, st'))"
  shows "ordinaryHeap (heap st')"
proof (cases "arrayMerge opts")
  case Merge
  with m obtain ms st1 where
    a: "mergeElems n opts st (elems (heap st) target) (elems (heap st) source) = Some (Inr (ms, st1))"
    and b: "alloc st1 (Arr ms) = (v, st')"
    by (auto simp: mergeArrays.simps andThen_returns)
  from mergeElems_ordinary [OF O h a] b show ?thesis
    by (auto dest: ordinary_alloc [rotated 2])
qed (use h m in \<open>auto simp: mergeArrays.simps split: built.splits dest: ordinary_alloc [rotated 2]\<close>)

lemma mergeKey_ordinary:
  assumes O: "objectsOrdinary n opts" and h: "ordinaryHeap (heap st)" and k: "ordinaryKey k"
    and m: "mergeKey n opts st result source k depth = Some (Inr st')"
  shows "ordinaryHeap (heap st')"
  using m h ordinary_write [OF _ k]
  by (auto simp: mergeKey.simps Let_def andThen_returns
           split: option.splits prod.splits if_splits
           dest!: ordinary_mergeFunctions [rotated] objectsOrdinaryD [OF O, rotated]
                  mergeArrays_ordinary [OF O, rotated])

lemma mergeKeys_ordinary:
  assumes O: "objectsOrdinary n opts"
  shows "ordinaryHeap (heap st) \<Longrightarrow> \<forall>k \<in> set ks. ordinaryKey k \<Longrightarrow>
         mergeKeys n opts st result source ks depth = Some (Inr st') \<Longrightarrow>
         ordinaryHeap (heap st')"
proof (induction ks arbitrary: st)
  case Nil
  then show ?case by simp
next
  case (Cons k ks)
  then obtain st1 where a: "mergeKey n opts st result source k depth = Some (Inr st1)"
    and b: "mergeKeys n opts st1 result source ks depth = Some (Inr st')"
    by (auto simp: andThen_returns)
  from Cons.prems(2) have k: "ordinaryKey k" and ks: "\<forall>k \<in> set ks. ordinaryKey k" by simp_all
  from mergeKey_ordinary [OF O Cons.prems(1) k a] have "ordinaryHeap (heap st1)" .
  from Cons.IH [OF this ks b] show ?case .
qed

lemma mergeSource_ordinary:
  assumes O: "objectsOrdinary n opts" and h: "ordinaryHeap (heap st)"
    and m: "mergeSource n opts st result source depth = Some (Inr (v, st'))"
  shows "ordinaryHeap (heap st')"
proof (cases "source = Null \<or> source = Undefined \<or> visitedHas st source")
  case True
  with m h show ?thesis by (auto simp: mergeSource.simps split: if_splits)
next
  case False
  with m obtain st1 where vs: "visitedSet st source result = Inr st1"
    by (auto simp: mergeSource.simps split: sum.splits)
  from ordinary_visitedSet [OF h vs] have h1: "ordinaryHeap (heap st1)" .
  have ks: "\<forall>k \<in> set (keysOf (heap st1) result source). ordinaryKey k"
    using ordinary_keysOf [OF h1] by blast
  have A: "\<And>v st'. mergeArrays n opts st1 result source = Some (Inr (v, st')) \<Longrightarrow>
      ordinaryHeap (heap st')"
    by (rule mergeArrays_ordinary [OF O h1])
  have K: "\<And>st'. mergeKeys n opts st1 result source (keysOf (heap st1) result source) depth =
      Some (Inr st') \<Longrightarrow> ordinaryHeap (heap st')"
    by (rule mergeKeys_ordinary [OF O h1 ks])
  from m False vs h1 A K show ?thesis
    by (auto simp: mergeSource.simps andThen_returns split: if_splits)
qed

lemma mergeSources_ordinary:
  assumes O: "objectsOrdinary n opts"
  shows "ordinaryHeap (heap st) \<Longrightarrow>
         mergeSources n opts st result sources depth = Some (Inr (v, st')) \<Longrightarrow>
         ordinaryHeap (heap st')"
proof (induction sources arbitrary: st result)
  case Nil
  then show ?case by simp
next
  case (Cons s sources)
  then obtain r1 st1 where a: "mergeSource n opts st result s depth = Some (Inr (r1, st1))"
    and b: "mergeSources n opts st1 r1 sources depth = Some (Inr (v, st'))"
    by (auto simp: andThen_returns)
  from mergeSource_ordinary [OF O Cons.prems(1) a] Cons.IH b show ?case by blast
qed

lemma objectsOrdinary_all: "objectsOrdinary n opts"
proof (induction n)
  case 0
  show ?case by (simp add: objectsOrdinary_def)
next
  case (Suc n)
  show ?case
    unfolding objectsOrdinary_def
  proof (intro allI impI)
    fix st target sources depth v st'
    assume h: "ordinaryHeap (heap st)"
      and a: "mergeObjects (Suc n) opts st target sources depth = Some (Inr (v, st'))"
    show "ordinaryHeap (heap st')"
    proof (cases "maxDepth opts \<le> int depth")
      case True
      with a h show ?thesis by auto
    next
      case d: False
      show ?thesis
      proof (cases "\<not> isPlainObject (heap st) target \<and> \<not> isArray (heap st) target")
        case True
        with a d h show ?thesis using ordinary_leafMerge by auto
      next
        case False
        with a d obtain r st1 where c: "cloneTarget opts st target = (r, st1)"
          and m: "mergeSources n opts st1 r sources depth = Some (Inr (v, st'))"
          by (auto split: prod.splits)
        from ordinary_cloneTarget [OF h c] mergeSources_ordinary [OF Suc _ m] show ?thesis
          by blast
      qed
    qed
  qed
qed

lemma merge_keeps_ordinary:
  "ordinaryHeap (heap st) \<Longrightarrow>
   mergeObjects n opts st target sources depth = Some (Inr (v, st')) \<Longrightarrow>
   ordinaryHeap (heap st')"
  using objectsOrdinary_all by (rule objectsOrdinaryD)

section \<open>Sources in a reference cycle\<close>

text \<open>
  C6. Take the options without callbacks (no \<^verbatim>\<open>customMerge\<close>; arrays replaced, concatenated
  or merged by position), with any depth limit, either \<^verbatim>\<open>clone\<close> and either
  \<^verbatim>\<open>functionMerge\<close>. Let the heap be well formed and ordinary; it may hold any cycles. Then
  the top-level call, on any target and any sources of the heap, returns whenever the fuel
  is above the number of objects of the heap plus one: the nesting of \<^verbatim>\<open>mergeObjects\<close> is
  bounded by the number of objects, because each nested call on a plain source either finds
  it in \<^verbatim>\<open>visited\<close> or records it. What the call returns is the \<^verbatim>\<open>TypeError\<close> of line 222 or a
  value; it is a value when no source is a string, a number or a boolean, and the heap it
  leaves is ordinary.

  For a source \<open>a\<close> whose key \<^verbatim>\<open>self\<close> holds \<open>a\<close> itself, merged into an empty mapping, the
  value returned is an object that holds under \<^verbatim>\<open>self\<close> the reference to the source: the
  source is as it was and at most one object was created, so the cycle is left unresolved
  and not expanded. In this call the guard of line 217 is not reached, since the target holds
  nothing under \<^verbatim>\<open>self\<close>; line 256 copies the reference.

  A source found in \<^verbatim>\<open>visited\<close> is skipped (line 217): the result and the state stay.
\<close>

theorem C6_merge_returns_on_cyclic_heaps:
  assumes B: "builtIn opts" and wf: "wellFormed h" and oh: "ordinaryHeap h"
    and vs: "list_all (validIn h) sources" and fuel: "length h + 1 < n"
  shows "(\<exists>r. mergeObjects n opts (initial h) target sources depth = Some r \<and>
            (list_all (\<lambda>s. \<not> primitive s) sources \<longrightarrow>
               (\<exists>v st'. r = Inr (v, st') \<and> ordinaryHeap (heap st')))) \<and>
         (\<forall>t a ps.
            0 < maxDepth opts \<and> lookup h t = Some (PlainObj []) \<and>
            lookup h a = Some (PlainObj ps) \<and> propOf ps (KStr ''self'') = Ref a \<longrightarrow>
            (\<exists>r st'. mergeObjects n opts (initial h) (Ref t) [Ref a] 0 = Some (Inr (Ref r, st')) \<and>
               getProp (heap st') (Ref r) (KStr ''self'') = Ref a \<and>
               lookup (heap st') a = Some (PlainObj ps) \<and>
               length (heap st') \<le> Suc (length h))) \<and>
         (\<forall>st result source d.
            visitedHas st source \<longrightarrow>
            mergeSource n opts st result source d = Some (Inr (result, st)))"
proof (intro conjI)
  from fuel obtain n' where n: "n = Suc n'" and l: "length h < n'"
    by (cases n) auto
  from card_pending_le [of "length h" "initial h"] l
  have c: "card (pending (length h) (initial h)) < n'" by simp
  have f: "\<forall>s \<in> set sources. fit opts (length h) s"
    using vs by (simp add: fit_def below_validIn list_all_iff)
  have s: "sound opts (length h) (initial h)"
    using sound_wellFormed [of "initial h" opts] wf by simp
  from objects_return [OF B s f c, of target depth] n obtain r where
    run: "mergeObjects n opts (initial h) target sources depth = Some r"
    and val: "list_all (\<lambda>s. \<not> primitive s) sources \<longrightarrow> (\<exists>v st'. r = Inr (v, st'))"
    by auto
  have "\<exists>v st'. r = Inr (v, st') \<and> ordinaryHeap (heap st')"
    if "list_all (\<lambda>s. \<not> primitive s) sources"
  proof -
    from val that obtain v st' where r: "r = Inr (v, st')" by blast
    from merge_keeps_ordinary [of "initial h" n opts target sources depth v st'] oh run r
    have "ordinaryHeap (heap st')" by simp
    with r show ?thesis by blast
  qed
  with run show "\<exists>r. mergeObjects n opts (initial h) target sources depth = Some r \<and>
            (list_all (\<lambda>s. \<not> primitive s) sources \<longrightarrow>
               (\<exists>v st'. r = Inr (v, st') \<and> ordinaryHeap (heap st')))"
    by blast
  from B have cm: "customMerge opts = None" by (simp add: builtIn_def)
  show "\<forall>t a ps.
            0 < maxDepth opts \<and> lookup h t = Some (PlainObj []) \<and>
            lookup h a = Some (PlainObj ps) \<and> propOf ps (KStr ''self'') = Ref a \<longrightarrow>
            (\<exists>r st'. mergeObjects n opts (initial h) (Ref t) [Ref a] 0 = Some (Inr (Ref r, st')) \<and>
               getProp (heap st') (Ref r) (KStr ''self'') = Ref a \<and>
               lookup (heap st') a = Some (PlainObj ps) \<and>
               length (heap st') \<le> Suc (length h))"
    using self_unresolved [OF cm, of h _ _ _ "KStr ''self''" n'] n by blast
  show "\<forall>st result source d.
            visitedHas st source \<longrightarrow>
            mergeSource n opts st result source d = Some (Inr (result, st))"
    by (simp add: mergeSource.simps)
qed

text \<open>
  The source at address 1 holds itself under \<^verbatim>\<open>self\<close> and, under \<^verbatim>\<open>k\<close>, an array with the
  object at 3, which holds under \<^verbatim>\<open>k\<close> an array with itself. Merged into itself with
  \<^verbatim>\<open>arrayMerge: 'merge'\<close>, the engine descends under \<^verbatim>\<open>self\<close> and finds the source visited
  (result 6, a copy); under \<^verbatim>\<open>k\<close> it merges the object at 3 into itself, records it,
  descends through its array, meets it again and finds it visited (result 8). Merged into the
  empty mapping at 0, the source is copied key by key.
\<close>

theorem C6_merge_returns_witness:
  "builtIn (defaultOptions\<lparr>arrayMerge := Merge\<rparr>) \<and>
   wellFormed
     [PlainObj [], PlainObj [(KStr ''self'', Ref 1), (KStr ''k'', Ref 2)], Arr [Ref 3],
      PlainObj [(KStr ''k'', Ref 4)], Arr [Ref 3]] \<and>
   ordinaryHeap
     [PlainObj [], PlainObj [(KStr ''self'', Ref 1), (KStr ''k'', Ref 2)], Arr [Ref 3],
      PlainObj [(KStr ''k'', Ref 4)], Arr [Ref 3]] \<and>
   list_all
     (validIn
       [PlainObj [], PlainObj [(KStr ''self'', Ref 1), (KStr ''k'', Ref 2)], Arr [Ref 3],
        PlainObj [(KStr ''k'', Ref 4)], Arr [Ref 3]])
     [Ref 1] \<and>
   length
     [PlainObj [], PlainObj [(KStr ''self'', Ref 1), (KStr ''k'', Ref 2)], Arr [Ref 3],
      PlainObj [(KStr ''k'', Ref 4)], Arr [Ref 3]] + 1 < (7 :: nat) \<and>
   list_all (\<lambda>s. \<not> primitive s) [Ref 1] \<and>
   (\<exists>r. mergeObjects 7 (defaultOptions\<lparr>arrayMerge := Merge\<rparr>)
          (initial
            [PlainObj [], PlainObj [(KStr ''self'', Ref 1), (KStr ''k'', Ref 2)], Arr [Ref 3],
             PlainObj [(KStr ''k'', Ref 4)], Arr [Ref 3]])
          (Ref 1) [Ref 1] 0 = Some r \<and>
        (\<exists>v st'. r = Inr (v, st') \<and> ordinaryHeap (heap st'))) \<and>
   mergeObjects 7 (defaultOptions\<lparr>arrayMerge := Merge\<rparr>)
     (initial
       [PlainObj [], PlainObj [(KStr ''self'', Ref 1), (KStr ''k'', Ref 2)], Arr [Ref 3],
        PlainObj [(KStr ''k'', Ref 4)], Arr [Ref 3]])
     (Ref 1) [Ref 1] 0 =
   Some (Inr (Ref 5,
     \<lparr>heap =
        [PlainObj [], PlainObj [(KStr ''self'', Ref 1), (KStr ''k'', Ref 2)], Arr [Ref 3],
         PlainObj [(KStr ''k'', Ref 4)], Arr [Ref 3],
         PlainObj [(KStr ''self'', Ref 6), (KStr ''k'', Ref 10)],
         PlainObj [(KStr ''self'', Ref 1), (KStr ''k'', Ref 2)],
         PlainObj [(KStr ''k'', Ref 9)], PlainObj [(KStr ''k'', Ref 4)],
         Arr [Ref 8], Arr [Ref 7]],
      visited = [(3, Ref 7), (1, Ref 5)], warnings = 0\<rparr>)) \<and>
   0 < maxDepth (defaultOptions\<lparr>arrayMerge := Merge\<rparr>) \<and>
   propOf [(KStr ''self'', Ref 1), (KStr ''k'', Ref 2)] (KStr ''self'') = Ref 1 \<and>
   mergeObjects 7 (defaultOptions\<lparr>arrayMerge := Merge\<rparr>)
     (initial
       [PlainObj [], PlainObj [(KStr ''self'', Ref 1), (KStr ''k'', Ref 2)], Arr [Ref 3],
        PlainObj [(KStr ''k'', Ref 4)], Arr [Ref 3]])
     (Ref 0) [Ref 1] 0 =
   Some (Inr (Ref 5,
     \<lparr>heap =
        [PlainObj [], PlainObj [(KStr ''self'', Ref 1), (KStr ''k'', Ref 2)], Arr [Ref 3],
         PlainObj [(KStr ''k'', Ref 4)], Arr [Ref 3],
         PlainObj [(KStr ''self'', Ref 1), (KStr ''k'', Ref 2)]],
      visited = [(1, Ref 5)], warnings = 0\<rparr>))"
proof -
  let ?h = "[PlainObj [], PlainObj [(KStr ''self'', Ref 1), (KStr ''k'', Ref 2)], Arr [Ref 3],
      PlainObj [(KStr ''k'', Ref 4)], Arr [Ref 3]]"
  let ?opts = "defaultOptions\<lparr>arrayMerge := Merge\<rparr>"
  have B: "builtIn ?opts" by (simp add: builtIn_def defaultOptions_def)
  have wf: "wellFormed ?h" by (simp add: wellFormed_def)
  have oh: "ordinaryHeap ?h" by (simp add: ordinaryHeap_def inheritedNames_def)
  have vs: "list_all (validIn ?h) [Ref 1]" by simp
  have fuel: "length ?h + 1 < (7 :: nat)" by simp
  have np: "list_all (\<lambda>s. \<not> primitive s) [Ref 1]" by simp
  have md: "0 < maxDepth ?opts" by (simp add: defaultOptions_def)
  have self: "propOf [(KStr ''self'', Ref 1), (KStr ''k'', Ref 2)] (KStr ''self'') = Ref 1"
    by (simp add: propOf_def)
  have cyc: "mergeObjects 7 ?opts (initial ?h) (Ref 1) [Ref 1] 0 =
   Some (Inr (Ref 5,
     \<lparr>heap =
        [PlainObj [], PlainObj [(KStr ''self'', Ref 1), (KStr ''k'', Ref 2)], Arr [Ref 3],
         PlainObj [(KStr ''k'', Ref 4)], Arr [Ref 3],
         PlainObj [(KStr ''self'', Ref 6), (KStr ''k'', Ref 10)],
         PlainObj [(KStr ''self'', Ref 1), (KStr ''k'', Ref 2)],
         PlainObj [(KStr ''k'', Ref 9)], PlainObj [(KStr ''k'', Ref 4)],
         Arr [Ref 8], Arr [Ref 7]],
      visited = [(3, Ref 7), (1, Ref 5)], warnings = 0\<rparr>))"
    by code_simp
  have empty: "mergeObjects 7 ?opts (initial ?h) (Ref 0) [Ref 1] 0 =
   Some (Inr (Ref 5,
     \<lparr>heap =
        [PlainObj [], PlainObj [(KStr ''self'', Ref 1), (KStr ''k'', Ref 2)], Arr [Ref 3],
         PlainObj [(KStr ''k'', Ref 4)], Arr [Ref 3],
         PlainObj [(KStr ''self'', Ref 1), (KStr ''k'', Ref 2)]],
      visited = [(1, Ref 5)], warnings = 0\<rparr>))"
    by code_simp
  from C6_merge_returns_on_cyclic_heaps [OF B wf oh vs fuel, of "Ref 1" 0] np
  have "\<exists>r. mergeObjects 7 ?opts (initial ?h) (Ref 1) [Ref 1] 0 = Some r \<and>
        (\<exists>v st'. r = Inr (v, st') \<and> ordinaryHeap (heap st'))"
    by blast
  with B wf oh vs fuel np md self cyc empty show ?thesis by blast
qed

section \<open>The positional array merge\<close>

text \<open>
  C7. Let \<^verbatim>\<open>arrayMerge\<close> be \<^verbatim>\<open>'merge'\<close>, without \<^verbatim>\<open>customMerge\<close>, in a well-formed ordinary
  heap, and let the target and the source be the arrays \<open>t\<close> and \<open>s\<close> of that heap. With fuel
  above the number of objects of the heap, \<^verbatim>\<open>mergeArrays\<close> returns: it returns a new array
  \<open>ms\<close>, created in the last state of a chain of states \<open>sts\<close> that starts in the state of
  the call, and \<open>ms\<close> is the positional merge of \<open>t\<close> and \<open>s\<close> along that chain. So \<open>ms\<close>
  has the length of the longer array; at an index where both have a plain object, the
  element is the result of \<^verbatim>\<open>mergeObjects\<close> on the two at depth 0, run in the state that the
  earlier indices left; at an index where both have an element that are not both plain
  objects, it is the source's; where only one array has an element, it is that element.
  When at no index both elements are plain objects, the result is the source followed by
  what the target has beyond it, and the state is not changed: for two arrays of scalars of
  the same length, the result is the source, element by element.
\<close>

theorem C7_positional_array_merge:
  assumes M: "arrayMerge opts = Merge" and cm: "customMerge opts = None"
    and wf: "wellFormed (heap st)" and oh: "ordinaryHeap (heap st)"
    and a: "lookup (heap st) a = Some (Arr t)" and b: "lookup (heap st) b = Some (Arr s)"
    and fuel: "length (heap st) < n"
  shows "\<exists>ms sts.
      positional n opts t s ms sts \<and> sts ! 0 = st \<and>
      mergeArrays n opts st (Ref a) (Ref b) = Some (Inr (alloc (sts ! length ms) (Arr ms))) \<and>
      ordinaryHeap (heap (sts ! length ms)) \<and>
      ((\<forall>p \<in> set (zip t s).
          \<not> (isPlainObject (heap st) (fst p) \<and> isPlainObject (heap st) (snd p))) \<longrightarrow>
       ms = s @ drop (length s) t \<and> sts ! length ms = st)"
proof -
  let ?L = "length (heap st)"
  from M cm have B: "builtIn opts" by (simp add: builtIn_def)
  note O = objectsReturn_all [OF B, of n ?L]
  note sd = sound_wellFormed [OF wf, of opts]
  from wellFormed_elems [OF wf b] have f: "\<forall>x \<in> set (elems (heap st) (Ref b)). fit opts ?L x"
    using b by (simp add: fit_def below_validIn list_all_iff)
  from card_pending_le [of ?L st] fuel have c: "card (pending ?L st) < n" by simp
  from elems_return [OF O sd f c, of "elems (heap st) (Ref a)"] a b obtain ms st' where
    m: "mergeElems n opts st t s = Some (Inr (ms, st'))"
    by auto
  from elems_chain [OF m] obtain sts where
    p: "positional n opts t s ms sts" and h: "sts ! 0 = st" and l: "sts ! length ms = st'"
    by blast
  have run: "mergeArrays n opts st (Ref a) (Ref b) = Some (Inr (alloc st' (Arr ms)))"
    using M a b m by (simp add: mergeArrays.simps)
  have nopair: "ms = s @ drop (length s) t \<and> st' = st"
    if "\<forall>p \<in> set (zip t s).
          \<not> (isPlainObject (heap st) (fst p) \<and> isPlainObject (heap st) (snd p))"
    using mergeElems_no_pair [OF that, of n opts] m by simp
  from nopair l have q: "(\<forall>p \<in> set (zip t s).
          \<not> (isPlainObject (heap st) (fst p) \<and> isPlainObject (heap st) (snd p))) \<longrightarrow>
       ms = s @ drop (length s) t \<and> sts ! length ms = st"
    by blast
  from run l have run': "mergeArrays n opts st (Ref a) (Ref b) =
      Some (Inr (alloc (sts ! length ms) (Arr ms)))"
    by simp
  from mergeElems_ordinary [OF objectsOrdinary_all oh m] l
  have o: "ordinaryHeap (heap (sts ! length ms))" by simp
  from p h run' o q show ?thesis by blast
qed

text \<open>
  \<^verbatim>\<open>[1, {a: 1}, 3]\<close> and \<^verbatim>\<open>[9, {b: 2}]\<close> give \<^verbatim>\<open>[9, {a: 1, b: 2}, 3]\<close>, and \<^verbatim>\<open>[1, 2]\<close>
  and \<^verbatim>\<open>[9, 'x']\<close> give \<^verbatim>\<open>[9, 'x']\<close>.
\<close>

theorem C7_positional_array_merge_witness:
  "arrayMerge (defaultOptions\<lparr>arrayMerge := Merge\<rparr>) = Merge \<and>
   customMerge (defaultOptions\<lparr>arrayMerge := Merge\<rparr>) = None \<and>
   wellFormed
     [Arr [Num 1, Ref 2, Num 3], Arr [Num 9, Ref 3],
      PlainObj [(KStr ''a'', Num 1)], PlainObj [(KStr ''b'', Num 2)]] \<and>
   ordinaryHeap
     [Arr [Num 1, Ref 2, Num 3], Arr [Num 9, Ref 3],
      PlainObj [(KStr ''a'', Num 1)], PlainObj [(KStr ''b'', Num 2)]] \<and>
   lookup
     [Arr [Num 1, Ref 2, Num 3], Arr [Num 9, Ref 3],
      PlainObj [(KStr ''a'', Num 1)], PlainObj [(KStr ''b'', Num 2)]] 0 =
     Some (Arr [Num 1, Ref 2, Num 3]) \<and>
   lookup
     [Arr [Num 1, Ref 2, Num 3], Arr [Num 9, Ref 3],
      PlainObj [(KStr ''a'', Num 1)], PlainObj [(KStr ''b'', Num 2)]] 1 =
     Some (Arr [Num 9, Ref 3]) \<and>
   (\<exists>ms sts.
      positional 5 (defaultOptions\<lparr>arrayMerge := Merge\<rparr>)
        [Num 1, Ref 2, Num 3] [Num 9, Ref 3] ms sts \<and>
      sts ! 0 =
        initial
          [Arr [Num 1, Ref 2, Num 3], Arr [Num 9, Ref 3],
           PlainObj [(KStr ''a'', Num 1)], PlainObj [(KStr ''b'', Num 2)]] \<and>
      mergeArrays 5 (defaultOptions\<lparr>arrayMerge := Merge\<rparr>)
        (initial
          [Arr [Num 1, Ref 2, Num 3], Arr [Num 9, Ref 3],
           PlainObj [(KStr ''a'', Num 1)], PlainObj [(KStr ''b'', Num 2)]])
        (Ref 0) (Ref 1) =
      Some (Inr (alloc (sts ! length ms) (Arr ms)))) \<and>
   mergeArrays 5 (defaultOptions\<lparr>arrayMerge := Merge\<rparr>)
     (initial
       [Arr [Num 1, Ref 2, Num 3], Arr [Num 9, Ref 3],
        PlainObj [(KStr ''a'', Num 1)], PlainObj [(KStr ''b'', Num 2)]])
     (Ref 0) (Ref 1) =
   Some (Inr (Ref 5,
     \<lparr>heap =
        [Arr [Num 1, Ref 2, Num 3], Arr [Num 9, Ref 3],
         PlainObj [(KStr ''a'', Num 1)], PlainObj [(KStr ''b'', Num 2)],
         PlainObj [(KStr ''a'', Num 1), (KStr ''b'', Num 2)],
         Arr [Num 9, Ref 4, Num 3]],
      visited = [(3, Ref 4)], warnings = 0\<rparr>)) \<and>
   mergeArrays 3 (defaultOptions\<lparr>arrayMerge := Merge\<rparr>)
     (initial [Arr [Num 1, Num 2], Arr [Num 9, Str ''x'']]) (Ref 0) (Ref 1) =
   Some (Inr (Ref 2,
     \<lparr>heap = [Arr [Num 1, Num 2], Arr [Num 9, Str ''x''], Arr [Num 9, Str ''x'']],
      visited = [], warnings = 0\<rparr>))"
proof -
  let ?h = "[Arr [Num 1, Ref 2, Num 3], Arr [Num 9, Ref 3],
      PlainObj [(KStr ''a'', Num 1)], PlainObj [(KStr ''b'', Num 2)]]"
  let ?opts = "defaultOptions\<lparr>arrayMerge := Merge\<rparr>"
  have M: "arrayMerge ?opts = Merge" by simp
  have cm: "customMerge ?opts = None" by (simp add: defaultOptions_def)
  have wf: "wellFormed (heap (initial ?h))" by (simp add: wellFormed_def)
  have oh: "ordinaryHeap (heap (initial ?h))" by (simp add: ordinaryHeap_def inheritedNames_def)
  have a: "lookup (heap (initial ?h)) 0 = Some (Arr [Num 1, Ref 2, Num 3])"
    by (simp add: lookup_def)
  have b: "lookup (heap (initial ?h)) 1 = Some (Arr [Num 9, Ref 3])"
    by (simp add: lookup_def)
  have fuel: "length (heap (initial ?h)) < 5" by simp
  have run: "mergeArrays 5 ?opts (initial ?h) (Ref 0) (Ref 1) =
   Some (Inr (Ref 5,
     \<lparr>heap =
        [Arr [Num 1, Ref 2, Num 3], Arr [Num 9, Ref 3],
         PlainObj [(KStr ''a'', Num 1)], PlainObj [(KStr ''b'', Num 2)],
         PlainObj [(KStr ''a'', Num 1), (KStr ''b'', Num 2)],
         Arr [Num 9, Ref 4, Num 3]],
      visited = [(3, Ref 4)], warnings = 0\<rparr>))"
    by code_simp
  have scalars: "mergeArrays 3 ?opts
     (initial [Arr [Num 1, Num 2], Arr [Num 9, Str ''x'']]) (Ref 0) (Ref 1) =
   Some (Inr (Ref 2,
     \<lparr>heap = [Arr [Num 1, Num 2], Arr [Num 9, Str ''x''], Arr [Num 9, Str ''x'']],
      visited = [], warnings = 0\<rparr>))"
    by code_simp
  from C7_positional_array_merge [OF M cm wf oh a b fuel]
  have "\<exists>ms sts.
      positional 5 ?opts [Num 1, Ref 2, Num 3] [Num 9, Ref 3] ms sts \<and>
      sts ! 0 = initial ?h \<and>
      mergeArrays 5 ?opts (initial ?h) (Ref 0) (Ref 1) =
      Some (Inr (alloc (sts ! length ms) (Arr ms)))"
    by blast
  with M cm wf oh a b run scalars show ?thesis by simp
qed

section \<open>Idempotence\<close>

text \<open>
  C8, as the code has it. Here \<^verbatim>\<open>merge(target, [source])\<close> is \<^verbatim>\<open>mergeObjects\<close> on the
  one source at depth 0 with nothing visited, as line 174 calls it. Take the options with
  arrays replaced (the default) or merged by position, the target cloned (the default) and
  no \<^verbatim>\<open>customMerge\<close>, with any depth limit and either \<^verbatim>\<open>functionMerge\<close> mode. Let the
  heap be ordinary: no object has an own key named like a member of \<^verbatim>\<open>Object.prototype\<close>,
  such as \<^verbatim>\<open>__proto__\<close>. Let the target denote a finite tree, and the source denote a finite
  tree free of callables in which no object occurs twice; the source is not a string, number
  or boolean merged into a mapping or a sequence (that call throws). Then, with fuel above
  the size of the source, the merge returns, merging the same source into its result in a
  second call returns, the two results denote the same tree: they are structurally equal;
  and both calls leave an ordinary heap.
\<close>

theorem C8_idempotent_on_unshared_sources:
  assumes P: "plainOptions opts"
    and oh: "ordinaryHeap h"
    and t: "unfolds h target tt ta"
    and s: "unfolds h source ts sa"
    and ds: "distinct sa"
    and cf: "callableFree ts"
    and mg: "mergeable tt ts"
    and fuel: "size ts < n"
  shows "\<exists>r1 st1 ra1 r2 st2 ra2 merged.
      mergeObjects n opts (initial h) target [source] 0 = Some (Inr (r1, st1)) \<and>
      mergeObjects n opts (initial (heap st1)) r1 [source] 0 = Some (Inr (r2, st2)) \<and>
      unfolds (heap st1) r1 merged ra1 \<and>
      unfolds (heap st2) r2 merged ra2 \<and>
      ordinaryHeap (heap st1) \<and> ordinaryHeap (heap st2)"
proof -
  let ?m = "pureObjects opts 0 tt ts"
  have O: "objectsRefine n opts" using P by (rule objectsRefine_all)
  have "\<exists>r st' ra.
      mergeObjects n opts (initial h) target [source] 0 = Some (Inr (r, st')) \<and>
      unfolds (heap st') r ?m ra \<and>
      set ra \<subseteq> set ta \<union> set sa \<union> {a. length (heap (initial h)) \<le> a} \<and>
      frame (initial h) st' \<and> vis st' \<subseteq> vis (initial h) \<union> set sa"
    using O [unfolded objectsRefine_def, rule_format, of "initial h" target tt ta source ts sa 0]
      t s ds mg fuel by simp
  then obtain r1 st1 ra1 where
    m1: "mergeObjects n opts (initial h) target [source] 0 = Some (Inr (r1, st1))"
    and u1: "unfolds (heap st1) r1 ?m ra1"
    and f1: "frame (initial h) st1"
    by blast
  from frame_unfolds(1) [OF f1] s have s1: "unfolds (heap st1) source ts sa" by simp
  have mg1: "mergeable ?m ts" using mg cf by (rule mergeable_result)
  have "\<exists>r st' ra.
      mergeObjects n opts (initial (heap st1)) r1 [source] 0 = Some (Inr (r, st')) \<and>
      unfolds (heap st') r (pureObjects opts 0 ?m ts) ra \<and>
      set ra \<subseteq> set ra1 \<union> set sa \<union> {a. length (heap (initial (heap st1))) \<le> a} \<and>
      frame (initial (heap st1)) st' \<and> vis st' \<subseteq> vis (initial (heap st1)) \<union> set sa"
    using O [unfolded objectsRefine_def, rule_format,
        of "initial (heap st1)" r1 ?m ra1 source ts sa 0]
      u1 s1 ds mg1 fuel by simp
  then obtain r2 st2 ra2 where
    m2: "mergeObjects n opts (initial (heap st1)) r1 [source] 0 = Some (Inr (r2, st2))"
    and u2: "unfolds (heap st2) r2 (pureObjects opts 0 ?m ts) ra2"
    by blast
  from u2 cf have u2': "unfolds (heap st2) r2 ?m ra2"
    by (simp only: pureObjects_idempotent)
  from merge_keeps_ordinary [OF _ m1] oh have o1: "ordinaryHeap (heap st1)" by simp
  from merge_keeps_ordinary [OF _ m2] o1 have o2: "ordinaryHeap (heap st2)" by simp
  from m1 m2 u1 u2' o1 o2 show ?thesis by blast
qed

theorem C8_idempotent_witness:
  "plainOptions defaultOptions \<and>
   ordinaryHeap
     [PlainObj [(KStr ''user'', Ref 1)], PlainObj [(KStr ''name'', Str ''John'')],
      PlainObj [(KStr ''user'', Ref 3), (KStr ''tags'', Ref 4)],
      PlainObj [(KStr ''age'', Num 30)], Arr [Str ''x'']] \<and>
   unfolds
     [PlainObj [(KStr ''user'', Ref 1)], PlainObj [(KStr ''name'', Str ''John'')],
      PlainObj [(KStr ''user'', Ref 3), (KStr ''tags'', Ref 4)],
      PlainObj [(KStr ''age'', Num 30)], Arr [Str ''x'']]
     (Ref 0) (SObj [(KStr ''user'', SObj [(KStr ''name'', SScalar (Str ''John''))])]) [0, 1] \<and>
   unfolds
     [PlainObj [(KStr ''user'', Ref 1)], PlainObj [(KStr ''name'', Str ''John'')],
      PlainObj [(KStr ''user'', Ref 3), (KStr ''tags'', Ref 4)],
      PlainObj [(KStr ''age'', Num 30)], Arr [Str ''x'']]
     (Ref 2)
     (SObj [(KStr ''user'', SObj [(KStr ''age'', SScalar (Num 30))]),
            (KStr ''tags'', SArr [SScalar (Str ''x'')])]) [2, 3, 4] \<and>
   distinct [2 :: addr, 3, 4] \<and>
   callableFree
     (SObj [(KStr ''user'', SObj [(KStr ''age'', SScalar (Num 30))]),
            (KStr ''tags'', SArr [SScalar (Str ''x'')])]) \<and>
   mergeable (SObj [(KStr ''user'', SObj [(KStr ''name'', SScalar (Str ''John''))])])
     (SObj [(KStr ''user'', SObj [(KStr ''age'', SScalar (Num 30))]),
            (KStr ''tags'', SArr [SScalar (Str ''x'')])]) \<and>
   (\<exists>r1 st1 ra1 r2 st2 ra2 merged.
      mergeObjects 20 defaultOptions
        (initial
          [PlainObj [(KStr ''user'', Ref 1)], PlainObj [(KStr ''name'', Str ''John'')],
           PlainObj [(KStr ''user'', Ref 3), (KStr ''tags'', Ref 4)],
           PlainObj [(KStr ''age'', Num 30)], Arr [Str ''x'']])
        (Ref 0) [Ref 2] 0 = Some (Inr (r1, st1)) \<and>
      mergeObjects 20 defaultOptions (initial (heap st1)) r1 [Ref 2] 0 = Some (Inr (r2, st2)) \<and>
      unfolds (heap st1) r1 merged ra1 \<and>
      unfolds (heap st2) r2 merged ra2 \<and>
      ordinaryHeap (heap st1) \<and> ordinaryHeap (heap st2))"
proof -
  let ?h = "[PlainObj [(KStr ''user'', Ref 1)], PlainObj [(KStr ''name'', Str ''John'')],
      PlainObj [(KStr ''user'', Ref 3), (KStr ''tags'', Ref 4)],
      PlainObj [(KStr ''age'', Num 30)], Arr [Str ''x'']]"
  let ?tt = "SObj [(KStr ''user'', SObj [(KStr ''name'', SScalar (Str ''John''))])]"
  let ?ts = "SObj [(KStr ''user'', SObj [(KStr ''age'', SScalar (Num 30))]),
            (KStr ''tags'', SArr [SScalar (Str ''x'')])]"
  have P: "plainOptions defaultOptions"
    by (simp add: plainOptions_def defaultOptions_def)
  have oh: "ordinaryHeap ?h"
    by (simp add: ordinaryHeap_def inheritedNames_def)
  have name: "unfolds ?h (Str ''John'') (SScalar (Str ''John'')) []"
    and age: "unfolds ?h (Num 30) (SScalar (Num 30)) []"
    and x: "unfolds ?h (Str ''x'') (SScalar (Str ''x'')) []"
    by (rule scalar, simp)+
  have "unfolds ?h (Ref 1) (SObj [(KStr ''name'', SScalar (Str ''John''))]) (1 # [] @ [])"
    by (rule plain [OF _ props [OF name noProps]]) (simp add: lookup_def)
  from props [OF this noProps]
  have "unfolds ?h (Ref 0) ?tt (0 # (1 # [] @ []) @ [])"
    by (rule plain [rotated]) (simp add: lookup_def)
  then have t: "unfolds ?h (Ref 0) ?tt [0, 1]" by simp
  have user: "unfolds ?h (Ref 3) (SObj [(KStr ''age'', SScalar (Num 30))]) (3 # [] @ [])"
    by (rule plain [OF _ props [OF age noProps]]) (simp add: lookup_def)
  have tags: "unfolds ?h (Ref 4) (SArr [SScalar (Str ''x'')]) (4 # [] @ [])"
    by (rule array [OF _ elems [OF x noElems]]) (simp add: lookup_def)
  from props [OF user props [OF tags noProps]]
  have "unfolds ?h (Ref 2) ?ts (2 # (3 # [] @ []) @ (4 # [] @ []) @ [])"
    by (rule plain [rotated]) (simp add: lookup_def)
  then have s: "unfolds ?h (Ref 2) ?ts [2, 3, 4]" by simp
  have ds: "distinct [2 :: addr, 3, 4]" by simp
  have cf: "callableFree ?ts" by simp
  have mg: "mergeable ?tt ?ts" by (simp add: mergeable_def)
  have fuel: "size ?ts < 20" by simp
  from C8_idempotent_on_unshared_sources [OF P oh t s ds cf mg fuel] P oh t s ds cf mg
  show ?thesis by blast
qed

text \<open>
  The claim takes every option but the compose mode. With \<^verbatim>\<open>arrayMerge: 'concat'\<close>, the
  scenario of the specification \<^verbatim>\<open>merge({tags: ['x']}, [{tags: ['y']}])\<close> gives
  \<^verbatim>\<open>{tags: ['x', 'y']}\<close> (address 5), and merging the same source into that result gives
  \<^verbatim>\<open>{tags: ['x', 'y', 'y']}\<close> (address 7): the source holds no callable and the two results
  differ.
\<close>

theorem C8_counterexample:
  "deepmerge 3 noCallbacks
     [PlainObj [(KStr ''tags'', Ref 1)], Arr [Str ''x''],
      PlainObj [(KStr ''tags'', Ref 3)], Arr [Str ''y''],
      PlainObj [(KStr ''arrayMerge'', Str ''concat'')]]
     (Ref 0) [Ref 2, Ref 4] =
   Some (Inr (Ref 5,
     \<lparr>heap = [PlainObj [(KStr ''tags'', Ref 1)], Arr [Str ''x''],
              PlainObj [(KStr ''tags'', Ref 3)], Arr [Str ''y''],
              PlainObj [(KStr ''arrayMerge'', Str ''concat'')],
              PlainObj [(KStr ''tags'', Ref 6)], Arr [Str ''x'', Str ''y'']],
      visited = [(2, Ref 5)], warnings = 0\<rparr>)) \<and>
   deepmerge 3 noCallbacks
     [PlainObj [(KStr ''tags'', Ref 1)], Arr [Str ''x''],
      PlainObj [(KStr ''tags'', Ref 3)], Arr [Str ''y''],
      PlainObj [(KStr ''arrayMerge'', Str ''concat'')],
      PlainObj [(KStr ''tags'', Ref 6)], Arr [Str ''x'', Str ''y'']]
     (Ref 5) [Ref 2, Ref 4] =
   Some (Inr (Ref 7,
     \<lparr>heap = [PlainObj [(KStr ''tags'', Ref 1)], Arr [Str ''x''],
              PlainObj [(KStr ''tags'', Ref 3)], Arr [Str ''y''],
              PlainObj [(KStr ''arrayMerge'', Str ''concat'')],
              PlainObj [(KStr ''tags'', Ref 6)], Arr [Str ''x'', Str ''y''],
              PlainObj [(KStr ''tags'', Ref 8)], Arr [Str ''x'', Str ''y'', Str ''y'']],
      visited = [(2, Ref 7)], warnings = 0\<rparr>))"
  by code_simp

end
